theory Spec2Isabelle
  imports Main
begin

section \<open>Data model of \<^verbatim>\<open>chess_game.py\<close>\<close>

text \<open>
  Colours are the two strings \<^verbatim>\<open>'white'\<close> and \<^verbatim>\<open>'black'\<close>; the piece classes are
  the six subclasses of \<^verbatim>\<open>Piece\<close>. The exceptions a Python run of the rules engine can
  raise are an out-of-range list index and an attribute read on \<^verbatim>\<open>None\<close>.
\<close>

datatype color = White | Black

datatype kind = Pawn | Rook | Knight | Bishop | Queen | King

datatype error = IndexError | AttributeError

type_synonym square = "int \<times> int"

text \<open>
  A \<^verbatim>\<open>Piece\<close> object. The two flags exist on \<^verbatim>\<open>Pawn\<close> objects only; the source reads them
  only after an \<^verbatim>\<open>isinstance(..., Pawn)\<close> test. The image and rectangle are rendering data
  and are left out.
\<close>

record piece =
  kind :: kind
  color :: color
  position :: square
  has_moved :: bool
  en_passant_vulnerable :: bool

text \<open>
  Pieces are mutable objects that the board, the selection, the pending promotion and the
  recorded snapshots all refer to. An object is known by its reference: its index in the
  list of all objects created so far. A board is a list of rows of optional references.
\<close>

type_synonym ref = nat

type_synonym board = "ref option list list"

definition new_piece :: "kind \<Rightarrow> color \<Rightarrow> square \<Rightarrow> piece" where
  "new_piece k c p =
     \<lparr>kind = k, color = c, position = p, has_moved = False, en_passant_vulnerable = False\<rparr>"

section \<open>Python list indexing\<close>

text \<open>
  \<^verbatim>\<open>xs[i]\<close> counts a negative index from the end and raises \<^verbatim>\<open>IndexError\<close> outside
  \<^verbatim>\<open>[-len, len)\<close>, for reads and for writes alike.
\<close>

definition py_index :: "nat \<Rightarrow> int \<Rightarrow> error + nat" where
  "py_index n i =
     (if 0 \<le> i \<and> i < int n then Inr (nat i)
      else if i < 0 \<and> - int n \<le> i then Inr (nat (int n + i))
      else Inl IndexError)"

definition py_get :: "'a list \<Rightarrow> int \<Rightarrow> error + 'a" where
  "py_get xs i = (case py_index (length xs) i of Inl e \<Rightarrow> Inl e | Inr k \<Rightarrow> Inr (xs ! k))"

definition board_get :: "board \<Rightarrow> int \<Rightarrow> int \<Rightarrow> error + ref option" where
  "board_get b r c = (case py_get b r of Inl e \<Rightarrow> Inl e | Inr row \<Rightarrow> py_get row c)"

definition board_set :: "board \<Rightarrow> int \<Rightarrow> int \<Rightarrow> ref option \<Rightarrow> error + board" where
  "board_set b r c v =
     (case py_index (length b) r of
        Inl e \<Rightarrow> Inl e
      | Inr i \<Rightarrow>
          (case py_index (length (b ! i)) c of
             Inl e \<Rightarrow> Inl e
           | Inr j \<Rightarrow> Inr (b[i := (b ! i)[j := v]])))"

definition in_range :: "int \<Rightarrow> bool" where
  "in_range x \<longleftrightarrow> 0 \<le> x \<and> x < 8"

definition range8 :: "int list" where
  "range8 = [0, 1, 2, 3, 4, 5, 6, 7]"

text \<open>The nested loops \<^verbatim>\<open>for row in range(8): for col in range(8)\<close>, in their order.\<close>

definition all_squares :: "square list" where
  "all_squares = concat (map (\<lambda>r. map (\<lambda>c. (r, c)) range8) range8)"

section \<open>Move generation\<close>

subsection \<open>\<^verbatim>\<open>Pawn.get_valid_moves\<close>\<close>

definition direction :: "color \<Rightarrow> int" where
  "direction c = (if c = White then - 1 else 1)"

text \<open>
  The forward step and, nested in it, the double step. The read of the double-step square
  has no range test of its own in the source, so it is a plain Python index.
\<close>

definition pawn_forward :: "board \<Rightarrow> piece \<Rightarrow> error + square list" where
  "pawn_forward b self =
     (let row = fst (position self); col = snd (position self);
          d = direction (color self)
      in if in_range (row + d) then
           (case board_get b (row + d) col of
              Inl e \<Rightarrow> Inl e
            | Inr (Some q) \<Rightarrow> Inr []
            | Inr None \<Rightarrow>
                if \<not> has_moved self then
                  (case board_get b (row + 2 * d) col of
                     Inl e \<Rightarrow> Inl e
                   | Inr None \<Rightarrow> Inr [(row + d, col), (row + 2 * d, col)]
                   | Inr (Some q) \<Rightarrow> Inr [(row + d, col)])
                else Inr [(row + d, col)])
         else Inr [])"

text \<open>One round of the loop \<^verbatim>\<open>for dcol in [-1, 1]\<close>: the capture and, in its \<^verbatim>\<open>elif\<close>, en passant.\<close>

definition pawn_diagonal :: "piece list \<Rightarrow> board \<Rightarrow> piece \<Rightarrow> int \<Rightarrow> error + square list" where
  "pawn_diagonal os b self dcol =
     (let row = fst (position self); col = snd (position self);
          d = direction (color self)
      in if in_range (row + d) \<and> in_range (col + dcol) then
           (case board_get b (row + d) (col + dcol) of
              Inl e \<Rightarrow> Inl e
            | Inr (Some q) \<Rightarrow>
                Inr (if color (os ! q) \<noteq> color self then [(row + d, col + dcol)] else [])
            | Inr None \<Rightarrow>
                if (row = 3 \<and> color self = White) \<or> (row = 4 \<and> color self = Black) then
                  (case board_get b row (col + dcol) of
                     Inl e \<Rightarrow> Inl e
                   | Inr None \<Rightarrow> Inr []
                   | Inr (Some a) \<Rightarrow>
                       Inr (if kind (os ! a) = Pawn \<and> en_passant_vulnerable (os ! a)
                            then [(row + d, col + dcol)] else []))
                else Inr [])
         else Inr [])"

definition pawn_moves :: "piece list \<Rightarrow> board \<Rightarrow> piece \<Rightarrow> error + square list" where
  "pawn_moves os b self =
     (case pawn_forward b self of
        Inl e \<Rightarrow> Inl e
      | Inr fw \<Rightarrow>
          (case pawn_diagonal os b self (- 1) of
             Inl e \<Rightarrow> Inl e
           | Inr dl \<Rightarrow>
               (case pawn_diagonal os b self 1 of
                  Inl e \<Rightarrow> Inl e
                | Inr dr \<Rightarrow> Inr (fw @ dl @ dr))))"

subsection \<open>Sliding pieces\<close>

text \<open>
  The inner loop \<^verbatim>\<open>for i in range(1, 8)\<close> of \<^verbatim>\<open>_get_straight_moves\<close> and
  \<^verbatim>\<open>_get_diagonal_moves\<close> along one direction; every \<^verbatim>\<open>break\<close> ends the recursion.
\<close>

fun slide :: "piece list \<Rightarrow> board \<Rightarrow> piece \<Rightarrow> int \<times> int \<Rightarrow> int list \<Rightarrow> error + square list" where
  "slide os b self d [] = Inr []"
| "slide os b self d (i # ks) =
     (let row = fst (position self) + i * fst d; col = snd (position self) + i * snd d
      in if in_range row \<and> in_range col then
           (case board_get b row col of
              Inl e \<Rightarrow> Inl e
            | Inr None \<Rightarrow>
                (case slide os b self d ks of
                   Inl e \<Rightarrow> Inl e
                 | Inr rest \<Rightarrow> Inr ((row, col) # rest))
            | Inr (Some q) \<Rightarrow>
                Inr (if color (os ! q) \<noteq> color self then [(row, col)] else []))
         else Inr [])"

fun slide_all :: "piece list \<Rightarrow> board \<Rightarrow> piece \<Rightarrow> (int \<times> int) list \<Rightarrow> error + square list" where
  "slide_all os b self [] = Inr []"
| "slide_all os b self (d # ds) =
     (case slide os b self d [1, 2, 3, 4, 5, 6, 7] of
        Inl e \<Rightarrow> Inl e
      | Inr ms \<Rightarrow>
          (case slide_all os b self ds of
             Inl e \<Rightarrow> Inl e
           | Inr rest \<Rightarrow> Inr (ms @ rest)))"

definition straight_moves :: "piece list \<Rightarrow> board \<Rightarrow> piece \<Rightarrow> error + square list" where
  "straight_moves os b self = slide_all os b self [(0, 1), (1, 0), (0, - 1), (- 1, 0)]"

definition diagonal_moves :: "piece list \<Rightarrow> board \<Rightarrow> piece \<Rightarrow> error + square list" where
  "diagonal_moves os b self = slide_all os b self [(1, 1), (1, - 1), (- 1, 1), (- 1, - 1)]"

subsection \<open>Knight and king\<close>

fun jumps :: "piece list \<Rightarrow> board \<Rightarrow> piece \<Rightarrow> (int \<times> int) list \<Rightarrow> error + square list" where
  "jumps os b self [] = Inr []"
| "jumps os b self (d # ds) =
     (let row = fst (position self) + fst d; col = snd (position self) + snd d
      in if in_range row \<and> in_range col then
           (case board_get b row col of
              Inl e \<Rightarrow> Inl e
            | Inr sq \<Rightarrow>
                (case jumps os b self ds of
                   Inl e \<Rightarrow> Inl e
                 | Inr rest \<Rightarrow>
                     Inr (if (case sq of None \<Rightarrow> True | Some q \<Rightarrow> color (os ! q) \<noteq> color self)
                          then (row, col) # rest else rest)))
         else jumps os b self ds)"

definition knight_offsets :: "(int \<times> int) list" where
  "knight_offsets =
     [(- 2, - 1), (- 2, 1), (- 1, - 2), (- 1, 2), (1, - 2), (1, 2), (2, - 1), (2, 1)]"

definition king_offsets :: "(int \<times> int) list" where
  "king_offsets =
     [(0, 1), (1, 0), (0, - 1), (- 1, 0), (1, 1), (1, - 1), (- 1, 1), (- 1, - 1)]"

subsection \<open>Dispatch on the class\<close>

text \<open>
  \<^verbatim>\<open>Queen\<close> builds a temporary rook and a temporary bishop of its own colour and position
  and concatenates their moves.
\<close>

definition get_valid_moves :: "piece list \<Rightarrow> board \<Rightarrow> piece \<Rightarrow> error + square list" where
  "get_valid_moves os b self =
     (case kind self of
        Pawn \<Rightarrow> pawn_moves os b self
      | Rook \<Rightarrow> straight_moves os b self
      | Knight \<Rightarrow> jumps os b self knight_offsets
      | Bishop \<Rightarrow> diagonal_moves os b self
      | Queen \<Rightarrow>
          (case straight_moves os b (new_piece Rook (color self) (position self)) of
             Inl e \<Rightarrow> Inl e
           | Inr sm \<Rightarrow>
               (case diagonal_moves os b (new_piece Bishop (color self) (position self)) of
                  Inl e \<Rightarrow> Inl e
                | Inr dm \<Rightarrow> Inr (sm @ dm)))
      | King \<Rightarrow> jumps os b self king_offsets)"

section \<open>Attack oracle and legality filter\<close>

text \<open>\<^verbatim>\<open>find_king\<close>: the first square, in scanning order, that holds a king of the colour.\<close>

fun find_king_in :: "piece list \<Rightarrow> color \<Rightarrow> board \<Rightarrow> square list \<Rightarrow> error + square option" where
  "find_king_in os clr b [] = Inr None"
| "find_king_in os clr b (sq # rest) =
     (case board_get b (fst sq) (snd sq) of
        Inl e \<Rightarrow> Inl e
      | Inr None \<Rightarrow> find_king_in os clr b rest
      | Inr (Some q) \<Rightarrow>
          if kind (os ! q) = King \<and> color (os ! q) = clr then Inr (Some sq)
          else find_king_in os clr b rest)"

definition find_king :: "piece list \<Rightarrow> color \<Rightarrow> board \<Rightarrow> error + square option" where
  "find_king os clr b = find_king_in os clr b all_squares"

text \<open>
  \<^verbatim>\<open>is_square_under_attack\<close>. The square is the result of \<^verbatim>\<open>find_king\<close> and may be
  \<^verbatim>\<open>None\<close>, which is a member of no move list.
\<close>

fun attack_scan :: "piece list \<Rightarrow> square option \<Rightarrow> color \<Rightarrow> board \<Rightarrow> square list \<Rightarrow> error + bool" where
  "attack_scan os target clr b [] = Inr False"
| "attack_scan os target clr b (sq # rest) =
     (case board_get b (fst sq) (snd sq) of
        Inl e \<Rightarrow> Inl e
      | Inr None \<Rightarrow> attack_scan os target clr b rest
      | Inr (Some q) \<Rightarrow>
          if color (os ! q) \<noteq> clr then
            (case get_valid_moves os b (os ! q) of
               Inl e \<Rightarrow> Inl e
             | Inr ms \<Rightarrow>
                 if (case target of None \<Rightarrow> False | Some t \<Rightarrow> t \<in> set ms) then Inr True
                 else attack_scan os target clr b rest)
          else attack_scan os target clr b rest)"

definition is_square_under_attack :: "piece list \<Rightarrow> square option \<Rightarrow> color \<Rightarrow> board \<Rightarrow> error + bool" where
  "is_square_under_attack os target clr b = attack_scan os target clr b all_squares"

text \<open>
  \<^verbatim>\<open>move_causes_check\<close>: the temporary board is the current one with the piece written to
  the destination and its origin cleared; no object is changed, so the moved piece keeps
  its stored position.
\<close>

definition move_causes_check :: "piece list \<Rightarrow> board \<Rightarrow> ref \<Rightarrow> square \<Rightarrow> error + bool" where
  "move_causes_check os b p mv =
     (case board_set b (fst mv) (snd mv) (Some p) of
        Inl e \<Rightarrow> Inl e
      | Inr t1 \<Rightarrow>
          (case board_set t1 (fst (position (os ! p))) (snd (position (os ! p))) None of
             Inl e \<Rightarrow> Inl e
           | Inr t2 \<Rightarrow>
               (case find_king os (color (os ! p)) t2 of
                  Inl e \<Rightarrow> Inl e
                | Inr kp \<Rightarrow> is_square_under_attack os kp (color (os ! p)) t2)))"

fun filter_legal :: "piece list \<Rightarrow> board \<Rightarrow> ref \<Rightarrow> square list \<Rightarrow> error + square list" where
  "filter_legal os b p [] = Inr []"
| "filter_legal os b p (mv # mvs) =
     (case move_causes_check os b p mv of
        Inl e \<Rightarrow> Inl e
      | Inr chk \<Rightarrow>
          (case filter_legal os b p mvs of
             Inl e \<Rightarrow> Inl e
           | Inr rest \<Rightarrow> Inr (if chk then rest else mv # rest)))"

definition get_legal_moves :: "piece list \<Rightarrow> board \<Rightarrow> ref \<Rightarrow> error + square list" where
  "get_legal_moves os b p =
     (case get_valid_moves os b (os ! p) of
        Inl e \<Rightarrow> Inl e
      | Inr pm \<Rightarrow> filter_legal os b p pm)"

section \<open>The game object\<close>

text \<open>
  The fields of \<^verbatim>\<open>ChessGame\<close> that the rules read or write, and the list of all piece
  objects. An exception is not caught anywhere in the source, so a raising operation ends
  the program and returns no state.
\<close>

record game =
  objects :: "piece list"
  board :: board
  turn :: color
  selected_piece :: "ref option"
  dragging :: bool
  valid_moves :: "square list"
  board_flipped :: bool
  in_check :: "color \<Rightarrow> bool"
  game_over :: bool
  game_result :: "string option"
  position_history :: "board list"
  last_move :: "(int \<times> int \<times> int \<times> int) option"
  promotion_pawn :: "ref option"

subsection \<open>\<^verbatim>\<open>__init__\<close> and \<^verbatim>\<open>_initialize_pieces\<close>\<close>

definition empty_board :: board where
  "empty_board = replicate 8 (replicate 8 None)"

text \<open>Create an object and store its reference on a square of the fresh board.\<close>

definition place :: "kind \<Rightarrow> color \<Rightarrow> nat \<Rightarrow> nat \<Rightarrow> piece list \<times> board \<Rightarrow> piece list \<times> board" where
  "place k c r col st =
     (fst st @ [new_piece k c (int r, int col)],
      (snd st)[r := (snd st ! r)[col := Some (length (fst st))]])"

definition piece_order :: "kind list" where
  "piece_order = [Rook, Knight, Bishop, Queen, King, Bishop, Knight, Rook]"

definition initialize_pieces :: "piece list \<times> board" where
  "initialize_pieces =
     foldl (\<lambda>st ck. place (snd ck) White 7 (fst ck) (place (snd ck) Black 0 (fst ck) st))
       (foldl (\<lambda>st col. place Pawn White 6 col (place Pawn Black 1 col st))
          ([], empty_board) [0, 1, 2, 3, 4, 5, 6, 7])
       (enumerate 0 piece_order)"

definition new_game :: "color \<Rightarrow> game" where
  "new_game player_color =
     \<lparr>objects = fst initialize_pieces, board = snd initialize_pieces, turn = White,
      selected_piece = None, dragging = False, valid_moves = [],
      board_flipped = (player_color = Black), in_check = (\<lambda>c. False),
      game_over = False, game_result = None, position_history = [], last_move = None,
      promotion_pawn = None\<rparr>"

subsection \<open>Check status and terminal conditions\<close>

definition is_in_check :: "game \<Rightarrow> color \<Rightarrow> error + bool" where
  "is_in_check s clr =
     (case find_king (objects s) clr (board s) of
        Inl e \<Rightarrow> Inl e
      | Inr kp \<Rightarrow> is_square_under_attack (objects s) kp clr (board s))"

definition update_check_status :: "game \<Rightarrow> error + game" where
  "update_check_status s =
     (case is_in_check s White of
        Inl e \<Rightarrow> Inl e
      | Inr w \<Rightarrow>
          (case is_in_check s Black of
             Inl e \<Rightarrow> Inl e
           | Inr k \<Rightarrow> Inr (s\<lparr>in_check := (in_check s)(White := w, Black := k)\<rparr>)))"

fun no_legal_scan :: "game \<Rightarrow> color \<Rightarrow> square list \<Rightarrow> error + bool" where
  "no_legal_scan s clr [] = Inr True"
| "no_legal_scan s clr (sq # rest) =
     (case board_get (board s) (fst sq) (snd sq) of
        Inl e \<Rightarrow> Inl e
      | Inr None \<Rightarrow> no_legal_scan s clr rest
      | Inr (Some q) \<Rightarrow>
          if color (objects s ! q) = clr then
            (case get_legal_moves (objects s) (board s) q of
               Inl e \<Rightarrow> Inl e
             | Inr ms \<Rightarrow> if ms \<noteq> [] then Inr False else no_legal_scan s clr rest)
          else no_legal_scan s clr rest)"

definition has_no_legal_moves :: "game \<Rightarrow> color \<Rightarrow> error + bool" where
  "has_no_legal_moves s clr = no_legal_scan s clr all_squares"

definition is_checkmate :: "game \<Rightarrow> color \<Rightarrow> error + bool" where
  "is_checkmate s clr = (if \<not> in_check s clr then Inr False else has_no_legal_moves s clr)"

definition is_stalemate :: "game \<Rightarrow> color \<Rightarrow> error + bool" where
  "is_stalemate s clr = (if in_check s clr then Inr False else has_no_legal_moves s clr)"

text \<open>
  \<^verbatim>\<open>Counter(self.position_history)\<close>: a dictionary from snapshot to number of
  occurrences, kept here as an association list in insertion order. Snapshots are tuples
  of references and \<^verbatim>\<open>None\<close>; pieces define no equality of their own, so two snapshots
  are equal exactly when every square holds the same object.
\<close>

fun counter_add :: "'a \<Rightarrow> ('a \<times> nat) list \<Rightarrow> ('a \<times> nat) list" where
  "counter_add x [] = [(x, 1)]"
| "counter_add x (kv # kvs) =
     (if fst kv = x then (fst kv, snd kv + 1) # kvs else kv # counter_add x kvs)"

definition counter :: "'a list \<Rightarrow> ('a \<times> nat) list" where
  "counter xs = foldl (\<lambda>kvs x. counter_add x kvs) [] xs"

definition is_draw_by_repetition :: "game \<Rightarrow> bool" where
  "is_draw_by_repetition s =
     (if length (position_history s) < 8 then False
      else list_ex (\<lambda>kv. 3 \<le> snd kv) (counter (position_history s)))"

definition winner_text :: "color \<Rightarrow> string" where
  "winner_text t = (if t = White then ''Black'' else ''White'')"

definition update_game_over :: "game \<Rightarrow> error + game" where
  "update_game_over s =
     (case is_checkmate s (turn s) of
        Inl e \<Rightarrow> Inl e
      | Inr True \<Rightarrow>
          Inr (s\<lparr>game_over := True,
                 game_result := Some (winner_text (turn s) @ '' wins by checkmate!'')\<rparr>)
      | Inr False \<Rightarrow>
          (case is_stalemate s (turn s) of
             Inl e \<Rightarrow> Inl e
           | Inr True \<Rightarrow>
               Inr (s\<lparr>game_over := True, game_result := Some ''Draw by stalemate!''\<rparr>)
           | Inr False \<Rightarrow>
               if is_draw_by_repetition s then
                 Inr (s\<lparr>game_over := True, game_result := Some ''Draw by repetition!''\<rparr>)
               else Inr s))"

definition update_position_history :: "game \<Rightarrow> game" where
  "update_position_history s = s\<lparr>position_history := position_history s @ [board s]\<rparr>"

subsection \<open>Selecting and moving\<close>

text \<open>
  Screen positions are pixel pairs \<^verbatim>\<open>(x, y)\<close>; \<^verbatim>\<open>BOARD_SIZE\<close> is 480 and \<^verbatim>\<open>SQ_SIZE\<close> is 60.
  Python's \<^verbatim>\<open>//\<close> on integers rounds down, as \<open>div\<close> on \<open>int\<close> does.
\<close>

definition get_board_position :: "game \<Rightarrow> int \<times> int \<Rightarrow> square" where
  "get_board_position s pos =
     (if board_flipped s then (7 - snd pos div 60, 7 - fst pos div 60)
      else (snd pos div 60, fst pos div 60))"

definition select_piece :: "game \<Rightarrow> int \<times> int \<Rightarrow> error + game" where
  "select_piece s pos =
     (if 480 \<le> snd pos then Inr s
      else
        (case board_get (board s) (fst (get_board_position s pos))
                (snd (get_board_position s pos)) of
           Inl e \<Rightarrow> Inl e
         | Inr None \<Rightarrow> Inr (s\<lparr>selected_piece := None, valid_moves := []\<rparr>)
         | Inr (Some q) \<Rightarrow>
             if color (objects s ! q) = turn s then
               (case get_legal_moves (objects s) (board s) q of
                  Inl e \<Rightarrow> Inl e
                | Inr ms \<Rightarrow>
                    Inr (s\<lparr>selected_piece := Some q, valid_moves := ms, dragging := True\<rparr>))
             else Inr (s\<lparr>selected_piece := None, valid_moves := []\<rparr>)))"

text \<open>
  The block \<^verbatim>\<open># Handle en passant capture\<close> of \<^verbatim>\<open>move_piece\<close>: a pawn that changes column
  onto an empty square clears the square on its own row and the destination's column.
\<close>

definition en_passant_capture :: "game \<Rightarrow> ref \<Rightarrow> square \<Rightarrow> error + board" where
  "en_passant_capture s p dst =
     (if kind (objects s ! p) = Pawn \<and> snd dst \<noteq> snd (position (objects s ! p)) then
        (case board_get (board s) (fst dst) (snd dst) of
           Inl e \<Rightarrow> Inl e
         | Inr (Some q) \<Rightarrow> Inr (board s)
         | Inr None \<Rightarrow> board_set (board s) (fst (position (objects s ! p))) (snd dst) None)
      else Inr (board s))"

text \<open>The block \<^verbatim>\<open># Make the move\<close>: two board writes and the new stored position.\<close>

definition make_the_move :: "game \<Rightarrow> ref \<Rightarrow> square \<Rightarrow> board \<Rightarrow> error + game" where
  "make_the_move s p dst b1 =
     (case board_set b1 (fst dst) (snd dst) (Some p) of
        Inl e \<Rightarrow> Inl e
      | Inr b2 \<Rightarrow>
          (case board_set b2 (fst (position (objects s ! p)))
                  (snd (position (objects s ! p))) None of
             Inl e \<Rightarrow> Inl e
           | Inr b3 \<Rightarrow>
               Inr (s\<lparr>objects := (objects s)[p := (objects s ! p)\<lparr>position := dst\<rparr>],
                      board := b3\<rparr>)))"

text \<open>The block \<^verbatim>\<open># Update pawn status\<close>; \<open>sr\<close> is the row the piece started on.\<close>

definition update_pawn_status :: "piece list \<Rightarrow> ref \<Rightarrow> int \<Rightarrow> int \<Rightarrow> piece list" where
  "update_pawn_status os p sr er =
     (if kind (os ! p) = Pawn then
        os[p := (os ! p)\<lparr>has_moved := True, en_passant_vulnerable := (\<bar>sr - er\<bar> = 2)\<rparr>]
      else os)"

text \<open>
  The loop over every square of the board that clears the flag of each pawn of the mover's
  colour other than the moved piece itself (compared as objects).
\<close>

fun reset_en_passant :: "piece list \<Rightarrow> ref \<Rightarrow> ref option list \<Rightarrow> piece list" where
  "reset_en_passant os p [] = os"
| "reset_en_passant os p (None # rest) = reset_en_passant os p rest"
| "reset_en_passant os p (Some q # rest) =
     reset_en_passant
       (if kind (os ! q) = Pawn \<and> color (os ! q) = color (os ! p) \<and> q \<noteq> p
        then os[q := (os ! q)\<lparr>en_passant_vulnerable := False\<rparr>] else os)
       p rest"

definition other_color :: "color \<Rightarrow> color" where
  "other_color t = (if t = White then Black else White)"

text \<open>The block \<^verbatim>\<open># Update game state\<close> that ends an accepted move which is no promotion.\<close>

definition update_game_state :: "game \<Rightarrow> int \<times> int \<times> int \<times> int \<Rightarrow> error + game" where
  "update_game_state s mv =
     (case update_check_status (s\<lparr>last_move := Some mv, turn := other_color (turn s)\<rparr>) of
        Inl e \<Rightarrow> Inl e
      | Inr s1 \<Rightarrow>
          (case update_game_over s1 of
             Inl e \<Rightarrow> Inl e
           | Inr s2 \<Rightarrow> Inr (update_position_history s2)))"

definition move_piece :: "game \<Rightarrow> int \<times> int \<Rightarrow> error + bool \<times> game" where
  "move_piece s end_pos =
     (if 480 \<le> snd end_pos then Inr (False, s)
      else
        (case selected_piece s of
           None \<Rightarrow> Inl AttributeError
         | Some p \<Rightarrow>
             let dst = get_board_position s end_pos;
                 start = position (objects s ! p)
             in if dst \<in> set (valid_moves s) then
                  (case en_passant_capture s p dst of
                     Inl e \<Rightarrow> Inl e
                   | Inr b1 \<Rightarrow>
                       (case make_the_move s p dst b1 of
                          Inl e \<Rightarrow> Inl e
                        | Inr s1 \<Rightarrow>
                            if kind (objects s1 ! p) = Pawn \<and> (fst dst = 0 \<or> fst dst = 7) then
                              Inr (True, s1\<lparr>promotion_pawn := Some p\<rparr>)
                            else
                              (case update_game_state
                                      (s1\<lparr>objects :=
                                            reset_en_passant
                                              (update_pawn_status (objects s1) p (fst start) (fst dst))
                                              p (concat (board s1))\<rparr>)
                                      (fst start, snd start, fst dst, snd dst) of
                                 Inl e \<Rightarrow> Inl e
                               | Inr s2 \<Rightarrow> Inr (True, s2))))
                else Inr (False, s)))"

subsection \<open>Promotion and resignation\<close>

text \<open>
  \<^verbatim>\<open>promote_pawn\<close> reads the position of the pending pawn first; with no pawn pending that
  is an attribute read on \<^verbatim>\<open>None\<close>. The new piece is a new object.
\<close>

definition promote_pawn :: "game \<Rightarrow> kind \<Rightarrow> error + game" where
  "promote_pawn s piece_class =
     (case promotion_pawn s of
        None \<Rightarrow> Inl AttributeError
      | Some p \<Rightarrow>
          (case board_set (board s) (fst (position (objects s ! p)))
                  (snd (position (objects s ! p))) (Some (length (objects s))) of
             Inl e \<Rightarrow> Inl e
           | Inr b1 \<Rightarrow>
               (case update_check_status
                       (s\<lparr>objects := objects s @
                              [new_piece piece_class (color (objects s ! p))
                                 (position (objects s ! p))],
                           board := b1, promotion_pawn := None\<rparr>) of
                  Inl e \<Rightarrow> Inl e
                | Inr s1 \<Rightarrow>
                    (case update_game_over s1 of
                       Inl e \<Rightarrow> Inl e
                     | Inr s2 \<Rightarrow> Inr (update_position_history s2)))))"

definition resign :: "game \<Rightarrow> game" where
  "resign s =
     s\<lparr>game_over := True,
       game_result := Some (winner_text (turn s) @ '' wins by resignation!'')\<rparr>"

subsection \<open>The mouse handlers\<close>

definition handle_click :: "game \<Rightarrow> int \<times> int \<Rightarrow> error + game" where
  "handle_click s pos =
     (if \<not> game_over s then
        (if selected_piece s = None then select_piece s pos
         else
           (case move_piece s pos of
              Inl e \<Rightarrow> Inl e
            | Inr (True, s1) \<Rightarrow> Inr (s1\<lparr>selected_piece := None, valid_moves := []\<rparr>)
            | Inr (False, s1) \<Rightarrow> select_piece s1 pos))
      else Inr s)"

definition handle_release :: "game \<Rightarrow> int \<times> int \<Rightarrow> error + game" where
  "handle_release s pos =
     (if selected_piece s \<noteq> None \<and> dragging s \<and> \<not> game_over s then
        (case move_piece s pos of
           Inl e \<Rightarrow> Inl e
         | Inr r \<Rightarrow> Inr ((snd r)\<lparr>selected_piece := None, valid_moves := [], dragging := False\<rparr>))
      else Inr s)"

definition flip_board :: "game \<Rightarrow> game" where
  "flip_board s = s\<lparr>board_flipped := \<not> board_flipped s\<rparr>"

section \<open>The board as a store of rows\<close>

text \<open>
  \<^verbatim>\<open>self.board\<close> is a list of eight row objects, and
  \<^verbatim>\<open>temp_board = [row[:] for row in self.board]\<close> builds a new list of new row objects.
  To follow which rows the legality filter writes, rows live in a store at addresses
  (their index in the store) and a board is the list of the addresses of its rows. A copy
  of a row is a new row at the next free address. The functions below are
  \<^verbatim>\<open>move_causes_check\<close> and \<^verbatim>\<open>get_legal_moves\<close> once more, on the store.
\<close>

type_synonym row_store = "ref option list list"

definition rows_of :: "row_store \<Rightarrow> nat list \<Rightarrow> board" where
  "rows_of h rs = map (\<lambda>a. h ! a) rs"

definition copy_board :: "row_store \<Rightarrow> nat list \<Rightarrow> row_store \<times> nat list" where
  "copy_board h rs = (h @ map (\<lambda>a. h ! a) rs, [length h ..< length h + length rs])"

definition store_set :: "row_store \<Rightarrow> nat list \<Rightarrow> int \<Rightarrow> int \<Rightarrow> ref option \<Rightarrow> error + row_store" where
  "store_set h rs r c v =
     (case py_index (length rs) r of
        Inl e \<Rightarrow> Inl e
      | Inr i \<Rightarrow>
          (case py_index (length (h ! (rs ! i))) c of
             Inl e \<Rightarrow> Inl e
           | Inr j \<Rightarrow> Inr (h[rs ! i := (h ! (rs ! i))[j := v]])))"

definition move_causes_check_in_store ::
  "piece list \<Rightarrow> row_store \<Rightarrow> nat list \<Rightarrow> ref \<Rightarrow> square \<Rightarrow> error + bool \<times> row_store" where
  "move_causes_check_in_store os h rs p mv =
     (case store_set (fst (copy_board h rs)) (snd (copy_board h rs)) (fst mv) (snd mv) (Some p) of
        Inl e \<Rightarrow> Inl e
      | Inr h1 \<Rightarrow>
          (case store_set h1 (snd (copy_board h rs)) (fst (position (os ! p)))
                  (snd (position (os ! p))) None of
             Inl e \<Rightarrow> Inl e
           | Inr h2 \<Rightarrow>
               (case find_king os (color (os ! p)) (rows_of h2 (snd (copy_board h rs))) of
                  Inl e \<Rightarrow> Inl e
                | Inr kp \<Rightarrow>
                    (case is_square_under_attack os kp (color (os ! p))
                            (rows_of h2 (snd (copy_board h rs))) of
                       Inl e \<Rightarrow> Inl e
                     | Inr r \<Rightarrow> Inr (r, h2)))))"

fun filter_legal_in_store ::
  "piece list \<Rightarrow> row_store \<Rightarrow> nat list \<Rightarrow> ref \<Rightarrow> square list \<Rightarrow> error + square list \<times> row_store" where
  "filter_legal_in_store os h rs p [] = Inr ([], h)"
| "filter_legal_in_store os h rs p (mv # mvs) =
     (case move_causes_check_in_store os h rs p mv of
        Inl e \<Rightarrow> Inl e
      | Inr r \<Rightarrow>
          (case filter_legal_in_store os (snd r) rs p mvs of
             Inl e \<Rightarrow> Inl e
           | Inr rest \<Rightarrow> Inr (if fst r then fst rest else mv # fst rest, snd rest)))"

definition get_legal_moves_in_store ::
  "piece list \<Rightarrow> row_store \<Rightarrow> nat list \<Rightarrow> ref \<Rightarrow> error + square list \<times> row_store" where
  "get_legal_moves_in_store os h rs p =
     (case get_valid_moves os (rows_of h rs) (os ! p) of
        Inl e \<Rightarrow> Inl e
      | Inr pm \<Rightarrow> filter_legal_in_store os h rs p pm)"

section \<open>All legal moves of a colour\<close>

text \<open>
  The legal moves of every piece of one colour, found by the scan that
  \<^verbatim>\<open>has_no_legal_moves\<close> makes, each with the class of the piece and its square.
\<close>

fun legal_destinations_in ::
  "piece list \<Rightarrow> board \<Rightarrow> color \<Rightarrow> square list \<Rightarrow> error + (kind \<times> square \<times> square) list" where
  "legal_destinations_in os b clr [] = Inr []"
| "legal_destinations_in os b clr (sq # rest) =
     (case board_get b (fst sq) (snd sq) of
        Inl e \<Rightarrow> Inl e
      | Inr None \<Rightarrow> legal_destinations_in os b clr rest
      | Inr (Some q) \<Rightarrow>
          if color (os ! q) = clr then
            (case get_legal_moves os b q of
               Inl e \<Rightarrow> Inl e
             | Inr ms \<Rightarrow>
                 (case legal_destinations_in os b clr rest of
                    Inl e \<Rightarrow> Inl e
                  | Inr ds \<Rightarrow> Inr (map (\<lambda>m. (kind (os ! q), sq, m)) ms @ ds)))
          else legal_destinations_in os b clr rest)"

definition legal_destinations ::
  "piece list \<Rightarrow> board \<Rightarrow> color \<Rightarrow> error + (kind \<times> square \<times> square) list" where
  "legal_destinations os b clr = legal_destinations_in os b clr all_squares"


section \<open>Games played with the mouse\<close>

text \<open>
  In the event loop a press on the board reaches \<^verbatim>\<open>handle_click\<close> and the release
  reaches \<^verbatim>\<open>handle_release\<close>. A move is a press on the centre of one square followed by
  a release on the centre of another (the board is not flipped in the games below).
\<close>

definition centre :: "square \<Rightarrow> int \<times> int" where
  "centre sq = (snd sq * 60 + 30, fst sq * 60 + 30)"

definition drag :: "game \<Rightarrow> square \<times> square \<Rightarrow> error + game" where
  "drag s mv =
     (case handle_click s (centre (fst mv)) of
        Inl e \<Rightarrow> Inl e
      | Inr s1 \<Rightarrow> handle_release s1 (centre (snd mv)))"

fun play :: "game \<Rightarrow> (square \<times> square) list \<Rightarrow> error + game" where
  "play s [] = Inr s"
| "play s (mv # mvs) = (case drag s mv of Inl e \<Rightarrow> Inl e | Inr s1 \<Rightarrow> play s1 mvs)"

text \<open>Fool's mate: 1. f3 e5 2. g4 Qh4.\<close>

definition fools_mate :: "(square \<times> square) list" where
  "fools_mate = [((6, 5), (5, 5)), ((1, 4), (3, 4)), ((6, 6), (4, 6)), ((0, 3), (4, 7))]"

text \<open>1. a4 b5 2. axb5 a6 3. bxa6 h6 4. a7 h5 5. axb8: a white pawn reaches row 0.\<close>

definition promotion_game :: "(square \<times> square) list" where
  "promotion_game =
     [((6, 0), (4, 0)), ((1, 1), (3, 1)), ((4, 0), (3, 1)), ((1, 0), (2, 0)),
      ((3, 1), (2, 0)), ((1, 7), (2, 7)), ((2, 0), (1, 0)), ((2, 7), (3, 7)),
      ((1, 0), (0, 1))]"

text \<open>
  1. h4 e5 2. h5 e4 3. h6 Ke7 4. c3 Ke6 5. Qa4 Kf5 6. a3 Kg4 7. f4 exf3 (en passant).
  Before the last move the black king on g4 and the white queen on a4 stand on row 4 with
  the black pawn on e4 and the white pawn on f4 between them.
\<close>

definition en_passant_game :: "(square \<times> square) list" where
  "en_passant_game =
     [((6, 7), (4, 7)), ((1, 4), (3, 4)), ((4, 7), (3, 7)), ((3, 4), (4, 4)),
      ((3, 7), (2, 7)), ((0, 4), (1, 4)), ((6, 2), (5, 2)), ((1, 4), (2, 4)),
      ((7, 3), (4, 0)), ((2, 4), (3, 5)), ((6, 0), (5, 0)), ((3, 5), (4, 6)),
      ((6, 5), (4, 5)), ((4, 4), (5, 5))]"

text \<open>1. e4 a6 2. e5 d5: the black pawn has just passed the white pawn on (3, 4).\<close>

definition passing_game :: "(square \<times> square) list" where
  "passing_game = [((6, 4), (4, 4)), ((1, 0), (2, 0)), ((4, 4), (3, 4)), ((1, 3), (3, 3))]"

section \<open>A position set up by hand\<close>


section \<open>Reachable games\<close>

text \<open>
  The games the program can build: a new game, changed by the calls the event loop makes.
  These are \<^verbatim>\<open>handle_click\<close>, \<^verbatim>\<open>handle_release\<close>, \<^verbatim>\<open>resign\<close>, \<^verbatim>\<open>flip_board\<close> and
  \<^verbatim>\<open>promote_pawn\<close> with one of the four classes in \<^verbatim>\<open>promotion_pieces\<close>
  (\<^verbatim>\<open>handle_drag\<close> moves only the sprite).
\<close>

inductive reachable :: "game \<Rightarrow> bool" where
  start: "reachable (new_game player_color)"
| click: "reachable s \<Longrightarrow> handle_click s pos = Inr s' \<Longrightarrow> reachable s'"
| release: "reachable s \<Longrightarrow> handle_release s pos = Inr s' \<Longrightarrow> reachable s'"
| promote: "reachable s \<Longrightarrow> piece_class \<in> {Queen, Rook, Bishop, Knight} \<Longrightarrow>
            promote_pawn s piece_class = Inr s' \<Longrightarrow> reachable s'"
| resigned: "reachable s \<Longrightarrow> reachable (resign s)"
| flipped: "reachable s \<Longrightarrow> reachable (flip_board s)"

text \<open>
  What every reachable game satisfies. A pawn that has not moved stands on the row where
  \<^verbatim>\<open>_initialize_pieces\<close> put it, and a pawn with the en-passant flag stands on the row a
  two-row advance leads to; every stored position is on the board.
\<close>

definition home_row :: "color \<Rightarrow> int" where
  "home_row c = (if c = White then 6 else 1)"

definition passed_row :: "color \<Rightarrow> int" where
  "passed_row c = (if c = White then 4 else 3)"

definition piece_ok :: "piece \<Rightarrow> bool" where
  "piece_ok q \<longleftrightarrow>
     in_range (fst (position q)) \<and> in_range (snd (position q)) \<and>
     (kind q \<noteq> Pawn \<or>
      (has_moved q \<or> fst (position q) = home_row (color q)) \<and>
      (\<not> en_passant_vulnerable q \<or> fst (position q) = passed_row (color q)))"

definition objs_ok :: "piece list \<Rightarrow> bool" where
  "objs_ok os = list_all piece_ok os"

text \<open>Every square refers to an existing object whose stored position is that square.\<close>

definition square_ok :: "piece list \<Rightarrow> nat \<Rightarrow> nat \<Rightarrow> ref option \<Rightarrow> bool" where
  "square_ok os i j q =
     (case q of None \<Rightarrow> True | Some a \<Rightarrow> a < length os \<and> position (os ! a) = (int i, int j))"

definition pos_ok :: "piece list \<Rightarrow> board \<Rightarrow> bool" where
  "pos_ok os b =
     list_all (\<lambda>ir. list_all (\<lambda>jq. square_ok os (fst ir) (fst jq) (snd jq))
                       (enumerate 0 (snd ir)))
       (enumerate 0 b)"

text \<open>
  What the stored legal moves of the selected piece satisfy with respect to its stored
  position: they are on the board, and a pawn's move is one row ahead, or two rows ahead
  for a pawn that has not moved.
\<close>

definition step_ok :: "piece \<Rightarrow> square \<Rightarrow> bool" where
  "step_ok q d \<longleftrightarrow>
     in_range (fst d) \<and> in_range (snd d) \<and>
     (kind q \<noteq> Pawn \<or> fst d = fst (position q) + direction (color q) \<or>
      (fst d = fst (position q) + 2 * direction (color q) \<and> \<not> has_moved q))"

definition sel_ok :: "game \<Rightarrow> bool" where
  "sel_ok s =
     (case selected_piece s of
        None \<Rightarrow> True
      | Some p \<Rightarrow> p < length (objects s) \<and> list_all (step_ok (objects s ! p)) (valid_moves s))"

definition prom_ok :: "game \<Rightarrow> bool" where
  "prom_ok s = (case promotion_pawn s of None \<Rightarrow> True | Some p \<Rightarrow> p < length (objects s))"

definition core_ok :: "game \<Rightarrow> bool" where
  "core_ok s \<longleftrightarrow> pos_ok (objects s) (board s) \<and> objs_ok (objects s) \<and> prom_ok s"

definition game_ok :: "game \<Rightarrow> bool" where
  "game_ok s \<longleftrightarrow> core_ok s \<and> sel_ok s"

section \<open>Rejected requests\<close>

lemma move_piece_rejects:
  assumes "selected_piece s = Some p"
    and "get_board_position s end_pos \<notin> set (valid_moves s)"
  shows "move_piece s end_pos = Inr (False, s)"
  using assms by (simp add: move_piece_def Let_def)

lemma select_piece_selected:
  assumes "select_piece s pos = Inr s1" and "snd pos < 480" and "selected_piece s1 = Some p"
  shows "\<exists>ms. get_legal_moves (objects s) (board s) p = Inr ms \<and>
           s1 = s\<lparr>selected_piece := Some p, valid_moves := ms, dragging := True\<rparr>"
  using assms
  by (auto simp: select_piece_def split: sum.splits option.splits if_splits)

lemma new_game_e2:
  "board_get (board (new_game White)) 6 4 = Inr (Some 9)"
  "color (objects (new_game White) ! 9) = White"
  "get_legal_moves (objects (new_game White)) (board (new_game White)) 9 = Inr [(5, 4), (4, 4)]"
  by code_simp+

lemma new_game_fields:
  "turn (new_game pc) = White" "promotion_pawn (new_game pc) = None"
  "board_flipped (new_game White) = False" "game_over (new_game pc) = False"
  "selected_piece (new_game pc) = None" "position_history (new_game pc) = []"
  by (simp_all add: new_game_def)

text \<open>
  Claim C7. A piece is selected by a press on the board, which stores its legal moves; a
  release on a square that is not among the legal moves of that piece makes
  \<^verbatim>\<open>move_piece\<close> return \<^verbatim>\<open>False\<close> with the game exactly as it was after the selection,
  and the selection itself changed neither the objects (positions and pawn flags), the
  board, the turn, the check flags, the game-over flag and result, the last move, the
  history nor the pending promotion.
\<close>

theorem move_piece_illegal_rejected:
  assumes "snd pos < 480"
    and "select_piece s pos = Inr s1"
    and "selected_piece s1 = Some p"
    and "get_legal_moves (objects s) (board s) p = Inr ms"
    and "get_board_position s1 end_pos \<notin> set ms"
  shows "move_piece s1 end_pos = Inr (False, s1) \<and>
         objects s1 = objects s \<and> board s1 = board s \<and> turn s1 = turn s \<and>
         in_check s1 = in_check s \<and> game_over s1 = game_over s \<and>
         game_result s1 = game_result s \<and> last_move s1 = last_move s \<and>
         position_history s1 = position_history s \<and> promotion_pawn s1 = promotion_pawn s"
proof -
  from select_piece_selected [OF assms(2) assms(1) assms(3)] assms(4)
  have s1: "s1 = s\<lparr>selected_piece := Some p, valid_moves := ms, dragging := True\<rparr>"
    by auto
  then have "valid_moves s1 = ms" by simp
  with assms(5) have "get_board_position s1 end_pos \<notin> set (valid_moves s1)" by simp
  from move_piece_rejects [OF assms(3) this] s1 show ?thesis by simp
qed

text \<open>
  In the starting position the king's pawn is pressed and released three rows ahead: the
  request is rejected.
\<close>

theorem move_piece_illegal_rejected_witness:
  "select_piece (new_game White) (270, 390) =
     Inr ((new_game White)\<lparr>selected_piece := Some 9, valid_moves := [(5, 4), (4, 4)],
            dragging := True\<rparr>) \<and>
   move_piece ((new_game White)\<lparr>selected_piece := Some 9, valid_moves := [(5, 4), (4, 4)],
            dragging := True\<rparr>) (270, 210) =
     Inr (False, (new_game White)\<lparr>selected_piece := Some 9, valid_moves := [(5, 4), (4, 4)],
            dragging := True\<rparr>)"
proof -
  let ?s1 = "(new_game White)\<lparr>selected_piece := Some 9, valid_moves := [(5, 4), (4, 4)],
            dragging := True\<rparr>"
  have a: "snd (270::int, 390::int) < 480" by simp
  have b: "select_piece (new_game White) (270, 390) = Inr ?s1"
    by (simp add: select_piece_def get_board_position_def new_game_e2 new_game_fields)
  have c: "selected_piece ?s1 = Some 9" by simp
  have d: "get_board_position ?s1 (270, 210) \<notin> set [(5, 4), (4, 4)]"
    by (simp add: get_board_position_def new_game_fields)
  from move_piece_illegal_rejected [OF a b c new_game_e2(3) d] b show ?thesis by simp
qed




section \<open>Terminal conditions\<close>









lemma update_game_state_order:
  assumes "update_game_state s mv = Inr s'"
  shows "\<exists>s1 s2. update_check_status (s\<lparr>last_move := Some mv, turn := other_color (turn s)\<rparr>) = Inr s1 \<and>
           turn s1 = other_color (turn s) \<and> update_game_over s1 = Inr s2 \<and>
           s' = update_position_history s2"
  using assms
  by (auto simp: update_game_state_def update_check_status_def split: sum.splits)




section \<open>Pawn moves\<close>

lemma pawn_forward_column:
  "pawn_forward b self = Inr ms \<Longrightarrow> sq \<in> set ms \<Longrightarrow> snd sq = snd (position self)"
  by (auto simp: pawn_forward_def Let_def split: if_splits sum.splits option.splits)

lemma pawn_diagonal_empty:
  assumes "pawn_diagonal os b self dcol = Inr ms" and "(r, c) \<in> set ms"
    and "board_get b r c = Inr None"
  shows "((fst (position self) = 3 \<and> color self = White) \<or>
          (fst (position self) = 4 \<and> color self = Black)) \<and>
         r = fst (position self) + direction (color self) \<and>
         c = snd (position self) + dcol \<and>
         (\<exists>a. board_get b (fst (position self)) c = Inr (Some a) \<and>
              kind (os ! a) = Pawn \<and> en_passant_vulnerable (os ! a))"
  using assms
  by (auto simp: pawn_diagonal_def Let_def split: if_splits sum.splits option.splits)

text \<open>
  On any board, a pawn move that changes column and lands on an empty square comes from
  the en passant branch: the pawn is on row 3 (white) or 4 (black) and the square beside
  it holds a pawn with the flag set.
\<close>

lemma en_passant_neighbour:
  assumes "kind self = Pawn"
    and "get_valid_moves os b self = Inr ms"
    and "(r, c) \<in> set ms"
    and "c \<noteq> snd (position self)"
    and "board_get b r c = Inr None"
  shows "((fst (position self) = 3 \<and> color self = White) \<or>
          (fst (position self) = 4 \<and> color self = Black)) \<and>
         r = fst (position self) + direction (color self) \<and>
         (c = snd (position self) - 1 \<or> c = snd (position self) + 1) \<and>
         (\<exists>a. board_get b (fst (position self)) c = Inr (Some a) \<and>
              kind (os ! a) = Pawn \<and> en_passant_vulnerable (os ! a))"
proof -
  from assms(1,2) obtain fw dl dr where
    fw: "pawn_forward b self = Inr fw" and dl: "pawn_diagonal os b self (- 1) = Inr dl"
    and dr: "pawn_diagonal os b self 1 = Inr dr" and ms: "ms = fw @ dl @ dr"
    by (auto simp: get_valid_moves_def pawn_moves_def split: sum.splits)
  from assms(3) ms consider "(r, c) \<in> set fw" | "(r, c) \<in> set dl" | "(r, c) \<in> set dr"
    by auto
  then show ?thesis
  proof cases
    case 1
    from pawn_forward_column [OF fw 1] assms(4) show ?thesis by simp
  next
    case 2
    from pawn_diagonal_empty [OF dl 2 assms(5)] show ?thesis by auto
  next
    case 3
    from pawn_diagonal_empty [OF dr 3 assms(5)] show ?thesis by auto
  qed
qed

text \<open>
  Every board read of the move generators but one comes after a range test, so every
  destination is on the board as soon as the unguarded double step of a pawn is: the pawn
  has moved, or the square two rows ahead is on the board.
\<close>

lemma slide_in_range:
  "slide os b self d ks = Inr ms \<Longrightarrow> sq \<in> set ms \<Longrightarrow> in_range (fst sq) \<and> in_range (snd sq)"
proof (induction ks arbitrary: ms)
  case Nil
  then show ?case by simp
next
  case (Cons i ks)
  then show ?case
    by (auto simp: Let_def split: if_splits sum.splits option.splits)
qed

lemma slide_all_in_range:
  "slide_all os b self ds = Inr ms \<Longrightarrow> sq \<in> set ms \<Longrightarrow> in_range (fst sq) \<and> in_range (snd sq)"
proof (induction ds arbitrary: ms)
  case Nil
  then show ?case by simp
next
  case (Cons d ds)
  from Cons.prems(1) obtain m1 rest where
    m1: "slide os b self d [1, 2, 3, 4, 5, 6, 7] = Inr m1"
    and rest: "slide_all os b self ds = Inr rest" and ms: "ms = m1 @ rest"
    by (auto simp del: slide.simps split: sum.splits)
  from Cons.prems(2) ms consider "sq \<in> set m1" | "sq \<in> set rest" by auto
  then show ?case
  proof cases
    case 1
    from slide_in_range [OF m1 1] show ?thesis .
  next
    case 2
    from Cons.IH [OF rest 2] show ?thesis .
  qed
qed

lemma jumps_in_range:
  "jumps os b self ds = Inr ms \<Longrightarrow> sq \<in> set ms \<Longrightarrow> in_range (fst sq) \<and> in_range (snd sq)"
proof (induction ds arbitrary: ms)
  case Nil
  then show ?case by simp
next
  case (Cons d ds)
  then show ?case
    by (auto simp: Let_def split: if_splits sum.splits)
qed

lemma pawn_diagonal_in_range:
  "pawn_diagonal os b self dcol = Inr ms \<Longrightarrow> sq \<in> set ms \<Longrightarrow>
   in_range (fst sq) \<and> in_range (snd sq)"
  by (auto simp: pawn_diagonal_def Let_def split: if_splits sum.splits option.splits)

lemma pawn_forward_in_range:
  assumes "pawn_forward b self = Inr ms" and "sq \<in> set ms"
    and "in_range (snd (position self))"
    and "has_moved self \<or> in_range (fst (position self) + 2 * direction (color self))"
  shows "in_range (fst sq) \<and> in_range (snd sq)"
  using assms
  by (auto simp: pawn_forward_def Let_def split: if_splits sum.splits option.splits)

lemma destinations_in_range:
  assumes "get_valid_moves os b self = Inr ms" and "sq \<in> set ms"
    and "kind self = Pawn \<Longrightarrow> in_range (snd (position self)) \<and>
           (has_moved self \<or> in_range (fst (position self) + 2 * direction (color self)))"
  shows "in_range (fst sq) \<and> in_range (snd sq)"
proof (cases "kind self")
  case Pawn
  with assms(1) obtain fw dl dr where
    fw: "pawn_forward b self = Inr fw" and dl: "pawn_diagonal os b self (- 1) = Inr dl"
    and dr: "pawn_diagonal os b self 1 = Inr dr" and ms: "ms = fw @ dl @ dr"
    by (auto simp: get_valid_moves_def pawn_moves_def split: sum.splits)
  from assms(2) ms consider "sq \<in> set fw" | "sq \<in> set dl" | "sq \<in> set dr" by auto
  then show ?thesis
  proof cases
    case 1
    from assms(3) [OF Pawn] pawn_forward_in_range [OF fw 1] show ?thesis by simp
  next
    case 2
    from pawn_diagonal_in_range [OF dl 2] show ?thesis .
  next
    case 3
    from pawn_diagonal_in_range [OF dr 3] show ?thesis .
  qed
next
  case Rook
  with assms(1) have "slide_all os b self [(0, 1), (1, 0), (0, - 1), (- 1, 0)] = Inr ms"
    by (simp add: get_valid_moves_def straight_moves_def del: slide_all.simps)
  from slide_all_in_range [OF this assms(2)] show ?thesis .
next
  case Knight
  with assms(1) have "jumps os b self knight_offsets = Inr ms"
    by (simp add: get_valid_moves_def)
  from jumps_in_range [OF this assms(2)] show ?thesis .
next
  case Bishop
  with assms(1) have "slide_all os b self [(1, 1), (1, - 1), (- 1, 1), (- 1, - 1)] = Inr ms"
    by (simp add: get_valid_moves_def diagonal_moves_def del: slide_all.simps)
  from slide_all_in_range [OF this assms(2)] show ?thesis .
next
  case Queen
  with assms(1) obtain sm dm where
    sm: "slide_all os b (new_piece Rook (color self) (position self))
           [(0, 1), (1, 0), (0, - 1), (- 1, 0)] = Inr sm"
    and dm: "slide_all os b (new_piece Bishop (color self) (position self))
           [(1, 1), (1, - 1), (- 1, 1), (- 1, - 1)] = Inr dm"
    and ms: "ms = sm @ dm"
    by (auto simp: get_valid_moves_def straight_moves_def diagonal_moves_def
        simp del: slide_all.simps split: sum.splits)
  from assms(2) ms consider "sq \<in> set sm" | "sq \<in> set dm" by auto
  then show ?thesis
  proof cases
    case 1
    from slide_all_in_range [OF sm 1] show ?thesis .
  next
    case 2
    from slide_all_in_range [OF dm 2] show ?thesis .
  qed
next
  case King
  with assms(1) have "jumps os b self king_offsets = Inr ms"
    by (simp add: get_valid_moves_def)
  from jumps_in_range [OF this assms(2)] show ?thesis .
qed

section \<open>What holds in every reachable game\<close>

lemma pos_ok_iff:
  "pos_ok os b \<longleftrightarrow>
     (\<forall>i j a. i < length b \<longrightarrow> j < length (b ! i) \<longrightarrow> b ! i ! j = Some a \<longrightarrow>
        a < length os \<and> position (os ! a) = (int i, int j))"
proof
  assume ok: "pos_ok os b"
  show "\<forall>i j a. i < length b \<longrightarrow> j < length (b ! i) \<longrightarrow> b ! i ! j = Some a \<longrightarrow>
        a < length os \<and> position (os ! a) = (int i, int j)"
  proof (intro allI impI)
    fix i j a
    assume i: "i < length b" and j: "j < length (b ! i)" and a: "b ! i ! j = Some a"
    from i have "(i, b ! i) \<in> set (enumerate 0 b)" by (simp add: in_set_enumerate_eq)
    with ok have "list_all (\<lambda>jq. square_ok os i (fst jq) (snd jq)) (enumerate 0 (b ! i))"
      unfolding pos_ok_def list_all_iff by fastforce
    moreover from j have "(j, b ! i ! j) \<in> set (enumerate 0 (b ! i))"
      by (simp add: in_set_enumerate_eq)
    ultimately have "square_ok os i j (b ! i ! j)"
      unfolding list_all_iff by fastforce
    with a show "a < length os \<and> position (os ! a) = (int i, int j)"
      by (simp add: square_ok_def)
  qed
next
  assume r: "\<forall>i j a. i < length b \<longrightarrow> j < length (b ! i) \<longrightarrow> b ! i ! j = Some a \<longrightarrow>
        a < length os \<and> position (os ! a) = (int i, int j)"
  show "pos_ok os b"
    unfolding pos_ok_def list_all_iff
  proof (intro ballI)
    fix ir jq
    assume "ir \<in> set (enumerate 0 b)" and "jq \<in> set (enumerate 0 (snd ir))"
    then have "fst ir < length b" "snd ir = b ! fst ir" "fst jq < length (b ! fst ir)"
      "snd jq = b ! fst ir ! fst jq"
      by (auto simp: in_set_enumerate_eq)
    with r show "square_ok os (fst ir) (fst jq) (snd jq)"
      by (auto simp: square_ok_def split: option.splits)
  qed
qed

lemma py_index_cases:
  "py_index n i = Inr k \<Longrightarrow> k < n \<and> (0 \<le> i \<longrightarrow> k = nat i)"
  by (auto simp: py_index_def split: if_splits)

lemma board_set_cases:
  assumes "board_set b r c v = Inr b'"
  shows "\<exists>i j. i < length b \<and> j < length (b ! i) \<and> b' = b[i := (b ! i)[j := v]] \<and>
               (0 \<le> r \<longrightarrow> i = nat r) \<and> (0 \<le> c \<longrightarrow> j = nat c)"
proof -
  from assms obtain i j where i: "py_index (length b) r = Inr i"
    and j: "py_index (length (b ! i)) c = Inr j" and b': "b' = b[i := (b ! i)[j := v]]"
    by (auto simp: board_set_def split: sum.splits)
  from py_index_cases [OF i] py_index_cases [OF j] b' show ?thesis by blast
qed

lemma board_get_cases:
  assumes "board_get b r c = Inr x"
  shows "\<exists>i j. i < length b \<and> j < length (b ! i) \<and> x = b ! i ! j \<and>
               (0 \<le> r \<longrightarrow> i = nat r) \<and> (0 \<le> c \<longrightarrow> j = nat c)"
proof -
  from assms obtain i j where i: "py_index (length b) r = Inr i"
    and j: "py_index (length (b ! i)) c = Inr j" and x: "x = b ! i ! j"
    by (auto simp: board_get_def py_get_def split: sum.splits)
  from py_index_cases [OF i] py_index_cases [OF j] x show ?thesis by blast
qed

lemma update_shape:
  "length (b[i := (b ! i)[j := v]]) = length b"
  "i' < length b \<Longrightarrow> length (b[i := (b ! i)[j := v]] ! i') = length (b ! i')"
  by (cases "i' = i"; simp)+

lemma update_at:
  "i < length b \<Longrightarrow> j < length (b ! i) \<Longrightarrow> i' < length b \<Longrightarrow> j' < length (b ! i') \<Longrightarrow>
   b[i := (b ! i)[j := v]] ! i' ! j' = (if i' = i \<and> j' = j then v else b ! i' ! j')"
  by (cases "i' = i"; cases "j' = j"; simp)


lemma pos_ok_clear:
  assumes "pos_ok os b" and "board_set b r c None = Inr b'"
  shows "pos_ok os b'"
proof -
  from board_set_cases [OF assms(2)] obtain i j where
    i: "i < length b" and j: "j < length (b ! i)" and b': "b' = b[i := (b ! i)[j := None]]"
    by blast
  show ?thesis
    unfolding pos_ok_iff
  proof (intro allI impI)
    fix i' j' a
    assume "i' < length b'" and "j' < length (b' ! i')" and a: "b' ! i' ! j' = Some a"
    with b' have i': "i' < length b" and j': "j' < length (b ! i')"
      by (simp_all add: update_shape)
    from a b' update_at [OF i j i' j', of None] have "b ! i' ! j' = Some a"
      by (simp split: if_splits)
    with assms(1) i' j' show "a < length os \<and> position (os ! a) = (int i', int j')"
      unfolding pos_ok_iff by blast
  qed
qed

lemma pos_ok_relocate:
  assumes ok: "pos_ok os b1" and p: "p < length os"
    and r1: "in_range (fst dst)" and r2: "in_range (snd dst)"
    and s2: "board_set b1 (fst dst) (snd dst) (Some p) = Inr b2"
    and s3: "board_set b2 (fst (position (os ! p))) (snd (position (os ! p))) None = Inr b3"
  shows "pos_ok (os[p := (os ! p)\<lparr>position := dst\<rparr>]) b3"
proof -
  from board_set_cases [OF s2] r1 r2 obtain i2 j2 where
    i2: "i2 < length b1" and j2: "j2 < length (b1 ! i2)"
    and b2: "b2 = b1[i2 := (b1 ! i2)[j2 := Some p]]"
    and d: "i2 = nat (fst dst)" "j2 = nat (snd dst)"
    by (auto simp: in_range_def)
  from board_set_cases [OF s3] obtain i3 j3 where
    i3: "i3 < length b2" and j3: "j3 < length (b2 ! i3)"
    and b3: "b3 = b2[i3 := (b2 ! i3)[j3 := None]]"
    and o1: "0 \<le> fst (position (os ! p)) \<longrightarrow> i3 = nat (fst (position (os ! p)))"
    and o2: "0 \<le> snd (position (os ! p)) \<longrightarrow> j3 = nat (snd (position (os ! p)))"
    by blast
  show ?thesis
    unfolding pos_ok_iff
  proof (intro allI impI)
    fix i j a
    assume "i < length b3" and "j < length (b3 ! i)" and a: "b3 ! i ! j = Some a"
    with b3 have ib2: "i < length b2" and jb2: "j < length (b2 ! i)"
      by (simp_all add: update_shape)
    with b2 have ib1: "i < length b1" and jb1: "j < length (b1 ! i)"
      by (simp_all add: update_shape)
    from a b3 update_at [OF i3 j3 ib2 jb2, of None]
    have ne3: "\<not> (i = i3 \<and> j = j3)" and a2: "b2 ! i ! j = Some a"
      by (auto split: if_splits)
    show "a < length (os[p := (os ! p)\<lparr>position := dst\<rparr>]) \<and>
          position (os[p := (os ! p)\<lparr>position := dst\<rparr>] ! a) = (int i, int j)"
    proof (cases "i = i2 \<and> j = j2")
      case True
      with a2 b2 update_at [OF i2 j2 ib1 jb1, of "Some p"] have "a = p" by simp
      with True d r1 r2 p show ?thesis by (simp add: in_range_def prod_eq_iff)
    next
      case False
      with a2 b2 update_at [OF i2 j2 ib1 jb1, of "Some p"] have "b1 ! i ! j = Some a" by simp
      with ok ib1 jb1 have al: "a < length os" and ap: "position (os ! a) = (int i, int j)"
        unfolding pos_ok_iff by blast+
      have "a \<noteq> p"
      proof
        assume "a = p"
        with ap o1 o2 have "i3 = i" "j3 = j" by simp_all
        with ne3 show False by simp
      qed
      with al ap show ?thesis by simp
    qed
  qed
qed

lemma pos_ok_objects:
  assumes "pos_ok os b" and "length os' = length os"
    and "\<And>a. a < length os \<Longrightarrow> position (os' ! a) = position (os ! a)"
  shows "pos_ok os' b"
  using assms unfolding pos_ok_iff by metis

lemma reset_en_passant_props:
  "length (reset_en_passant os p qs) = length os \<and>
   position (reset_en_passant os p qs ! a) = position (os ! a) \<and>
   kind (reset_en_passant os p qs ! a) = kind (os ! a) \<and>
   color (reset_en_passant os p qs ! a) = color (os ! a) \<and>
   has_moved (reset_en_passant os p qs ! a) = has_moved (os ! a) \<and>
   (en_passant_vulnerable (reset_en_passant os p qs ! a) \<longrightarrow> en_passant_vulnerable (os ! a))"
proof (induction os p qs rule: reset_en_passant.induct)
  case (1 os p)
  then show ?case by simp
next
  case (2 os p rest)
  then show ?case by simp
next
  case (3 os p q rest)
  let ?os1 = "if kind (os ! q) = Pawn \<and> color (os ! q) = color (os ! p) \<and> q \<noteq> p
        then os[q := (os ! q)\<lparr>en_passant_vulnerable := False\<rparr>] else os"
  have "length ?os1 = length os \<and> position (?os1 ! a) = position (os ! a) \<and>
        kind (?os1 ! a) = kind (os ! a) \<and> color (?os1 ! a) = color (os ! a) \<and>
        has_moved (?os1 ! a) = has_moved (os ! a) \<and>
        (en_passant_vulnerable (?os1 ! a) \<longrightarrow> en_passant_vulnerable (os ! a))"
    by (cases "q < length os"; cases "a = q"; simp add: list_update_beyond not_less)
  with 3 show ?case by simp
qed

lemma pawn_forward_rows:
  "pawn_forward b q = Inr ms \<Longrightarrow> d \<in> set ms \<Longrightarrow>
   fst d = fst (position q) + direction (color q) \<or>
   (fst d = fst (position q) + 2 * direction (color q) \<and> \<not> has_moved q)"
  by (auto simp: pawn_forward_def Let_def split: if_splits sum.splits option.splits)

lemma pawn_diagonal_rows:
  "pawn_diagonal os b q dcol = Inr ms \<Longrightarrow> d \<in> set ms \<Longrightarrow>
   fst d = fst (position q) + direction (color q)"
  by (auto simp: pawn_diagonal_def Let_def split: if_splits sum.splits option.splits)

lemma pawn_moves_rows:
  assumes "kind q = Pawn" and "get_valid_moves os b q = Inr ms" and "d \<in> set ms"
  shows "fst d = fst (position q) + direction (color q) \<or>
         (fst d = fst (position q) + 2 * direction (color q) \<and> \<not> has_moved q)"
proof -
  from assms(1,2) obtain fw dl dr where
    fw: "pawn_forward b q = Inr fw" and dl: "pawn_diagonal os b q (- 1) = Inr dl"
    and dr: "pawn_diagonal os b q 1 = Inr dr" and ms: "ms = fw @ dl @ dr"
    by (auto simp: get_valid_moves_def pawn_moves_def split: sum.splits)
  from assms(3) ms consider "d \<in> set fw" | "d \<in> set dl" | "d \<in> set dr" by auto
  then show ?thesis
  proof cases
    case 1
    from pawn_forward_rows [OF fw 1] show ?thesis .
  next
    case 2
    from pawn_diagonal_rows [OF dl 2] show ?thesis by simp
  next
    case 3
    from pawn_diagonal_rows [OF dr 3] show ?thesis by simp
  qed
qed

lemma valid_moves_step_ok:
  assumes "piece_ok q" and "get_valid_moves os b q = Inr ms" and "d \<in> set ms"
  shows "step_ok q d"
proof -
  have "kind q = Pawn \<Longrightarrow> in_range (snd (position q)) \<and>
          (has_moved q \<or> in_range (fst (position q) + 2 * direction (color q)))"
    using assms(1)
    by (auto simp: piece_ok_def home_row_def direction_def in_range_def split: if_splits)
  from destinations_in_range [OF assms(2,3) this]
  have "in_range (fst d) \<and> in_range (snd d)" by simp
  moreover have "kind q \<noteq> Pawn \<or> fst d = fst (position q) + direction (color q) \<or>
      (fst d = fst (position q) + 2 * direction (color q) \<and> \<not> has_moved q)"
    using pawn_moves_rows [OF _ assms(2,3)] by blast
  ultimately show ?thesis by (simp add: step_ok_def)
qed

lemma filter_legal_subset:
  "filter_legal os b p ms = Inr ls \<Longrightarrow> set ls \<subseteq> set ms"
proof (induction ms arbitrary: ls)
  case Nil
  then show ?case by simp
next
  case (Cons mv mvs)
  then show ?case by (auto split: sum.splits if_splits)
qed

lemma legal_moves_step_ok:
  assumes "piece_ok (os ! p)" and "get_legal_moves os b p = Inr ls"
  shows "list_all (step_ok (os ! p)) ls"
proof -
  from assms(2) obtain ms where ms: "get_valid_moves os b (os ! p) = Inr ms"
    and f: "filter_legal os b p ms = Inr ls"
    by (auto simp: get_legal_moves_def split: sum.splits)
  from filter_legal_subset [OF f] valid_moves_step_ok [OF assms(1) ms]
  show ?thesis by (auto simp: list_all_iff)
qed


lemma objs_ok_iff: "objs_ok os \<longleftrightarrow> (\<forall>a<length os. piece_ok (os ! a))"
  by (simp add: objs_ok_def list_all_length)

lemma update_game_state_frame:
  "update_game_state s mv = Inr s' \<Longrightarrow>
   objects s' = objects s \<and> board s' = board s \<and> promotion_pawn s' = promotion_pawn s"
  by (auto simp: update_game_state_def update_check_status_def update_game_over_def
      update_position_history_def split: sum.splits bool.splits if_splits)

lemma select_piece_ok:
  assumes "game_ok s" and "select_piece s pos = Inr s'"
  shows "game_ok s'"
proof (cases "480 \<le> snd pos")
  case True
  with assms show ?thesis by (simp add: select_piece_def)
next
  case False
  let ?sq = "get_board_position s pos"
  from assms(2) False obtain x where x: "board_get (board s) (fst ?sq) (snd ?sq) = Inr x"
    by (auto simp: select_piece_def split: sum.splits)
  show ?thesis
  proof (cases "\<exists>q ms. x = Some q \<and> color (objects s ! q) = turn s \<and>
                  get_legal_moves (objects s) (board s) q = Inr ms")
    case True
    then obtain q ms where q: "x = Some q" "color (objects s ! q) = turn s"
      and ms: "get_legal_moves (objects s) (board s) q = Inr ms" by blast
    with assms(2) False x
    have s': "s' = s\<lparr>selected_piece := Some q, valid_moves := ms, dragging := True\<rparr>"
      by (simp add: select_piece_def)
    from board_get_cases [OF x] q(1) obtain i j where
      "i < length (board s)" "j < length (board s ! i)" "board s ! i ! j = Some q" by auto
    with assms(1) have ql: "q < length (objects s)"
      unfolding game_ok_def core_ok_def pos_ok_iff by blast
    with assms(1) have "piece_ok (objects s ! q)"
      by (simp add: game_ok_def core_ok_def objs_ok_iff)
    from legal_moves_step_ok [OF this ms] ql s' assms(1) show ?thesis
      by (simp add: game_ok_def core_ok_def sel_ok_def prom_ok_def split: option.splits)
  next
    case False
    with assms(2) \<open>\<not> 480 \<le> snd pos\<close> x
    have "s' = s\<lparr>selected_piece := None, valid_moves := []\<rparr>"
      by (auto simp: select_piece_def split: option.splits if_splits sum.splits)
    with assms(1) show ?thesis
      by (simp add: game_ok_def core_ok_def sel_ok_def prom_ok_def split: option.splits)
  qed
qed

lemma en_passant_capture_ok:
  assumes "pos_ok (objects s) (board s)" and "en_passant_capture s p dst = Inr b1"
  shows "pos_ok (objects s) b1"
proof (cases "b1 = board s")
  case True
  with assms(1) show ?thesis by simp
next
  case False
  with assms(2) have
    "board_set (board s) (fst (position (objects s ! p))) (snd dst) None = Inr b1"
    by (auto simp: en_passant_capture_def split: if_splits sum.splits option.splits)
  from pos_ok_clear [OF assms(1) this] show ?thesis .
qed

lemma piece_ok_promoting:
  assumes "piece_ok q" and "step_ok q dst" and "kind q = Pawn" and "fst dst = 0 \<or> fst dst = 7"
  shows "piece_ok (q\<lparr>position := dst\<rparr>)"
  using assms
  by (auto simp: piece_ok_def step_ok_def home_row_def passed_row_def direction_def
      in_range_def split: if_splits)

lemma piece_ok_moved:
  assumes "piece_ok q" and "step_ok q dst"
  shows "piece_ok (if kind q = Pawn
           then q\<lparr>position := dst, has_moved := True,
                  en_passant_vulnerable := (\<bar>fst (position q) - fst dst\<bar> = 2)\<rparr>
           else q\<lparr>position := dst\<rparr>)"
  using assms
  by (auto simp: piece_ok_def step_ok_def home_row_def passed_row_def direction_def
      in_range_def split: if_splits)

lemma piece_ok_weaken:
  assumes "piece_ok q" and "position q' = position q" and "kind q' = kind q"
    and "color q' = color q" and "has_moved q' = has_moved q"
    and "en_passant_vulnerable q' \<longrightarrow> en_passant_vulnerable q"
  shows "piece_ok q'"
  using assms by (auto simp: piece_ok_def)


lemma make_the_move_cases:
  assumes "make_the_move s p dst b1 = Inr s1"
  shows "\<exists>b2 b3. board_set b1 (fst dst) (snd dst) (Some p) = Inr b2 \<and>
           board_set b2 (fst (position (objects s ! p))) (snd (position (objects s ! p))) None
             = Inr b3 \<and>
           s1 = s\<lparr>objects := (objects s)[p := (objects s ! p)\<lparr>position := dst\<rparr>], board := b3\<rparr>"
  using assms by (auto simp: make_the_move_def split: sum.splits)

lemma update_pawn_status_props:
  "length (update_pawn_status os p sr er) = length os"
  "position (update_pawn_status os p sr er ! a) = position (os ! a)"
  by (cases "p < length os"; cases "a = p";
      simp add: update_pawn_status_def list_update_beyond not_less)+

lemma moved_objects_ok:
  assumes os: "objs_ok os" and p: "p < length os" and st: "step_ok (os ! p) dst"
  shows "objs_ok (reset_en_passant
           (update_pawn_status (os[p := (os ! p)\<lparr>position := dst\<rparr>]) p
              (fst (position (os ! p))) (fst dst))
           p qs)"
    (is "objs_ok (reset_en_passant ?os2 p qs)")
  unfolding objs_ok_iff
proof (intro allI impI)
  fix a assume "a < length (reset_en_passant ?os2 p qs)"
  then have a: "a < length os"
    by (simp add: reset_en_passant_props update_pawn_status_props)
  have ok2: "piece_ok (?os2 ! a)"
  proof (cases "a = p")
    case True
    from os p have "piece_ok (os ! p)" by (simp add: objs_ok_iff)
    from piece_ok_moved [OF this st] True p show ?thesis
      by (cases "kind (os ! p) = Pawn") (simp_all add: update_pawn_status_def)
  next
    case False
    with os a show ?thesis by (simp add: objs_ok_iff update_pawn_status_def)
  qed
  from reset_en_passant_props [of ?os2 p qs a]
  show "piece_ok (reset_en_passant ?os2 p qs ! a)"
    by (intro piece_ok_weaken [OF ok2]) simp_all
qed

lemma promoting_objects_ok:
  assumes os: "objs_ok os" and p: "p < length os" and st: "step_ok (os ! p) dst"
    and k: "kind (os ! p) = Pawn" and r: "fst dst = 0 \<or> fst dst = 7"
  shows "objs_ok (os[p := (os ! p)\<lparr>position := dst\<rparr>])"
  unfolding objs_ok_iff
proof (intro allI impI)
  fix a assume "a < length (os[p := (os ! p)\<lparr>position := dst\<rparr>])"
  then have a: "a < length os" by simp
  show "piece_ok (os[p := (os ! p)\<lparr>position := dst\<rparr>] ! a)"
  proof (cases "a = p")
    case True
    from os p have "piece_ok (os ! p)" by (simp add: objs_ok_iff)
    from piece_ok_promoting [OF this st k r] True p show ?thesis by simp
  next
    case False
    with os a show ?thesis by (simp add: objs_ok_iff)
  qed
qed

lemma move_piece_ok:
  assumes ok: "game_ok s" and mv: "move_piece s pos = Inr (r, s')"
  shows "core_ok s' \<and> (r \<or> s' = s)"
proof (cases "480 \<le> snd pos \<or> get_board_position s pos \<notin> set (valid_moves s)")
  case True
  with mv have "s' = s"
    by (auto simp: move_piece_def Let_def split: option.splits if_splits)
  with ok show ?thesis by (simp add: game_ok_def)
next
  case False
  let ?dst = "get_board_position s pos"
  let ?os = "objects s"
  from False have off: "\<not> 480 \<le> snd pos" and mem: "?dst \<in> set (valid_moves s)" by simp_all
  from mv off obtain p where sel: "selected_piece s = Some p"
    by (auto simp: move_piece_def split: option.splits)
  from ok sel mem have p: "p < length ?os" and st: "step_ok (?os ! p) ?dst"
    by (auto simp: game_ok_def sel_ok_def list_all_iff)
  from ok have pos: "pos_ok ?os (board s)" and objs: "objs_ok ?os" and prom: "prom_ok s"
    by (simp_all add: game_ok_def core_ok_def)
  from mv off sel mem obtain b1 s1 where
    epc: "en_passant_capture s p ?dst = Inr b1" and mtm: "make_the_move s p ?dst b1 = Inr s1"
    by (auto simp: move_piece_def Let_def split: sum.splits)
  let ?os1 = "?os[p := (?os ! p)\<lparr>position := ?dst\<rparr>]"
  from make_the_move_cases [OF mtm] obtain b2 b3 where
    w2: "board_set b1 (fst ?dst) (snd ?dst) (Some p) = Inr b2"
    and w3: "board_set b2 (fst (position (?os ! p))) (snd (position (?os ! p))) None = Inr b3"
    and s1: "s1 = s\<lparr>objects := ?os1, board := b3\<rparr>"
    by blast
  from st have rng: "in_range (fst ?dst)" "in_range (snd ?dst)" by (simp_all add: step_ok_def)
  from pos_ok_relocate [OF en_passant_capture_ok [OF pos epc] p rng w2 w3]
  have pos1: "pos_ok ?os1 b3" .
  from p have k1: "kind (?os1 ! p) = kind (?os ! p)" by simp
  show ?thesis
  proof (cases "kind (?os ! p) = Pawn \<and> (fst ?dst = 0 \<or> fst ?dst = 7)")
    case True
    with mv off sel mem epc mtm s1 k1 have s': "s' = s1\<lparr>promotion_pawn := Some p\<rparr>" and "r"
      by (auto simp: move_piece_def Let_def)
    from True promoting_objects_ok [OF objs p st] have "objs_ok ?os1" by blast
    with pos1 s' s1 p \<open>r\<close> show ?thesis by (simp add: core_ok_def prom_ok_def)
  next
    case False
    let ?os3 = "reset_en_passant
           (update_pawn_status ?os1 p (fst (position (?os ! p))) (fst ?dst)) p (concat b3)"
    from False mv off sel mem epc mtm s1 k1 obtain s2 where
      ugs: "update_game_state (s1\<lparr>objects := ?os3\<rparr>)
              (fst (position (?os ! p)), snd (position (?os ! p)), fst ?dst, snd ?dst) = Inr s2"
      and s': "s' = s2" and "r"
      by (auto simp: move_piece_def Let_def split: sum.splits)
    from update_game_state_frame [OF ugs] s1
    have f: "objects s' = ?os3" "board s' = b3" "promotion_pawn s' = promotion_pawn s"
      by (simp_all add: s')
    have o3: "objs_ok ?os3" by (rule moved_objects_ok [OF objs p st])
    have p3: "pos_ok ?os3 b3"
      by (rule pos_ok_objects [OF pos1])
        (simp_all add: reset_en_passant_props update_pawn_status_props)
    have "length ?os3 = length ?os"
      by (simp add: reset_en_passant_props update_pawn_status_props)
    with prom f have "prom_ok s'" by (simp add: prom_ok_def split: option.splits)
    with o3 p3 f \<open>r\<close> show ?thesis by (simp add: core_ok_def)
  qed
qed


lemma handle_click_ok:
  assumes "game_ok s" and "handle_click s pos = Inr s'"
  shows "game_ok s'"
proof (cases "game_over s")
  case True
  with assms show ?thesis by (simp add: handle_click_def)
next
  case False
  show ?thesis
  proof (cases "selected_piece s = None")
    case True
    with assms(2) False have "select_piece s pos = Inr s'" by (simp add: handle_click_def)
    from select_piece_ok [OF assms(1) this] show ?thesis .
  next
    case sel: False
    with assms(2) \<open>\<not> game_over s\<close> obtain r s1 where mv: "move_piece s pos = Inr (r, s1)"
      by (auto simp: handle_click_def split: sum.splits)
    from move_piece_ok [OF assms(1) mv] have c: "core_ok s1" and rs: "r \<or> s1 = s" by simp_all
    show ?thesis
    proof (cases r)
      case True
      with assms(2) \<open>\<not> game_over s\<close> sel mv
      have "s' = s1\<lparr>selected_piece := None, valid_moves := []\<rparr>"
        by (simp add: handle_click_def)
      with c show ?thesis
        by (simp add: game_ok_def core_ok_def sel_ok_def prom_ok_def split: option.splits)
    next
      case False
      with rs have "s1 = s" by simp
      with assms(2) \<open>\<not> game_over s\<close> sel mv False have "select_piece s pos = Inr s'"
        by (simp add: handle_click_def)
      from select_piece_ok [OF assms(1) this] show ?thesis .
    qed
  qed
qed

lemma handle_release_ok:
  assumes "game_ok s" and "handle_release s pos = Inr s'"
  shows "game_ok s'"
proof (cases "selected_piece s \<noteq> None \<and> dragging s \<and> \<not> game_over s")
  case False
  with assms show ?thesis by (auto simp: handle_release_def)
next
  case True
  with assms(2) obtain r s1 where mv: "move_piece s pos = Inr (r, s1)"
    and s': "s' = s1\<lparr>selected_piece := None, valid_moves := [], dragging := False\<rparr>"
    by (auto simp: handle_release_def split: sum.splits)
  from move_piece_ok [OF assms(1) mv] have "core_ok s1" by simp
  with s' show ?thesis
    by (simp add: game_ok_def core_ok_def sel_ok_def prom_ok_def split: option.splits)
qed

lemma promote_pawn_cases:
  assumes "promote_pawn s k = Inr s'"
  shows "\<exists>p b1. promotion_pawn s = Some p \<and>
           board_set (board s) (fst (position (objects s ! p))) (snd (position (objects s ! p)))
             (Some (length (objects s))) = Inr b1 \<and>
           objects s' = objects s @ [new_piece k (color (objects s ! p)) (position (objects s ! p))] \<and>
           board s' = b1 \<and> promotion_pawn s' = None \<and>
           selected_piece s' = selected_piece s \<and> valid_moves s' = valid_moves s"
  using assms
  by (auto simp: promote_pawn_def update_check_status_def update_game_over_def
      update_position_history_def split: sum.splits option.splits bool.splits if_splits)

lemma promote_pawn_ok:
  assumes ok: "game_ok s" and k: "k \<noteq> Pawn" and pr: "promote_pawn s k = Inr s'"
  shows "game_ok s'"
proof -
  let ?os = "objects s"
  from promote_pawn_cases [OF pr] obtain p b1 where
    pp: "promotion_pawn s = Some p"
    and w: "board_set (board s) (fst (position (?os ! p))) (snd (position (?os ! p)))
             (Some (length ?os)) = Inr b1"
    and f: "objects s' = ?os @ [new_piece k (color (?os ! p)) (position (?os ! p))]"
      "board s' = b1" "promotion_pawn s' = None"
      "selected_piece s' = selected_piece s" "valid_moves s' = valid_moves s"
    by blast
  from ok have pos: "pos_ok ?os (board s)" and objs: "objs_ok ?os" and prom: "prom_ok s"
    and sel: "sel_ok s"
    by (simp_all add: game_ok_def core_ok_def)
  from prom pp have p: "p < length ?os" by (simp add: prom_ok_def)
  with objs have pk: "piece_ok (?os ! p)" by (simp add: objs_ok_iff)
  then have rng: "0 \<le> fst (position (?os ! p))" "0 \<le> snd (position (?os ! p))"
    by (simp_all add: piece_ok_def in_range_def)
  let ?new = "new_piece k (color (?os ! p)) (position (?os ! p))"
  from board_set_cases [OF w] rng obtain i j where
    i: "i < length (board s)" and j: "j < length (board s ! i)"
    and b1: "b1 = (board s)[i := (board s ! i)[j := Some (length ?os)]]"
    and ij: "i = nat (fst (position (?os ! p)))" "j = nat (snd (position (?os ! p)))"
    by auto
  have pos': "pos_ok (?os @ [?new]) b1"
    unfolding pos_ok_iff
  proof (intro allI impI)
    fix i' j' a
    assume "i' < length b1" and "j' < length (b1 ! i')" and a: "b1 ! i' ! j' = Some a"
    with b1 have i': "i' < length (board s)" and j': "j' < length (board s ! i')"
      by (simp_all add: update_shape)
    show "a < length (?os @ [?new]) \<and> position ((?os @ [?new]) ! a) = (int i', int j')"
    proof (cases "i' = i \<and> j' = j")
      case True
      with a b1 update_at [OF i j i' j', of "Some (length ?os)"] have "a = length ?os" by simp
      with True ij rng show ?thesis by (simp add: new_piece_def prod_eq_iff)
    next
      case False
      with a b1 update_at [OF i j i' j', of "Some (length ?os)"]
      have "board s ! i' ! j' = Some a" by simp
      with pos i' j' have "a < length ?os" "position (?os ! a) = (int i', int j')"
        unfolding pos_ok_iff by blast+
      then show ?thesis by (simp add: nth_append)
    qed
  qed
  from pk k have "piece_ok ?new" by (simp add: piece_ok_def new_piece_def)
  with objs have objs': "objs_ok (?os @ [?new])" by (simp add: objs_ok_def)
  from sel f have "sel_ok s'"
    by (auto simp: sel_ok_def nth_append split: option.splits)
  with pos' objs' f show ?thesis
    by (simp add: game_ok_def core_ok_def prom_ok_def)
qed

lemma resign_ok: "game_ok s \<Longrightarrow> game_ok (resign s)"
  by (simp add: game_ok_def core_ok_def sel_ok_def prom_ok_def resign_def split: option.splits)

lemma flip_board_ok: "game_ok s \<Longrightarrow> game_ok (flip_board s)"
  by (simp add: game_ok_def core_ok_def sel_ok_def prom_ok_def flip_board_def
      split: option.splits)

lemma initial_pieces_ok:
  "pos_ok (fst initialize_pieces) (snd initialize_pieces)"
  "objs_ok (fst initialize_pieces)"
  by code_simp+

lemma new_game_ok: "game_ok (new_game pc)"
  by (simp add: game_ok_def core_ok_def sel_ok_def prom_ok_def new_game_def initial_pieces_ok)

lemma reachable_ok: "reachable s \<Longrightarrow> game_ok s"
proof (induction rule: reachable.induct)
  case (start player_color)
  show ?case by (rule new_game_ok)
next
  case (click s pos s')
  from handle_click_ok [OF click.IH click.hyps(2)] show ?case .
next
  case (release s pos s')
  from handle_release_ok [OF release.IH release.hyps(2)] show ?case .
next
  case (promote s piece_class s')
  from promote.hyps(2) have "piece_class \<noteq> Pawn" by auto
  from promote_pawn_ok [OF promote.IH this promote.hyps(3)] show ?case .
next
  case (resigned s)
  from resign_ok [OF resigned.IH] show ?case .
next
  case (flipped s)
  from flip_board_ok [OF flipped.IH] show ?case .
qed

lemma reachable_play: "reachable s \<Longrightarrow> play s mvs = Inr s' \<Longrightarrow> reachable s'"
proof (induction mvs arbitrary: s)
  case Nil
  then show ?case by simp
next
  case (Cons mv mvs)
  from Cons.prems(2) obtain s1 s2 where
    c: "handle_click s (centre (fst mv)) = Inr s1"
    and r: "handle_release s1 (centre (snd mv)) = Inr s2"
    and p: "play s2 mvs = Inr s'"
    by (auto simp: drag_def split: sum.splits)
  from reachable.release [OF reachable.click [OF Cons.prems(1) c] r]
  have "reachable s2" .
  from Cons.IH [OF this p] show ?case .
qed

text \<open>
  Claim C6. For every piece of a reachable game, of every class, and every board, every
  destination that its move generation returns has row and column in [0,8).
\<close>

theorem reachable_destinations_in_bounds:
  assumes "reachable s" and "a < length (objects s)"
    and "get_valid_moves (objects s) b (objects s ! a) = Inr ms" and "sq \<in> set ms"
  shows "0 \<le> fst sq \<and> fst sq < 8 \<and> 0 \<le> snd sq \<and> snd sq < 8"
proof -
  from reachable_ok [OF assms(1)] assms(2) have "piece_ok (objects s ! a)"
    by (simp add: game_ok_def core_ok_def objs_ok_iff)
  from valid_moves_step_ok [OF this assms(3,4)] show ?thesis
    by (simp add: step_ok_def in_range_def)
qed

theorem reachable_destinations_in_bounds_witness:
  "reachable (new_game White) \<and> 9 < length (objects (new_game White)) \<and>
   get_valid_moves (objects (new_game White)) (board (new_game White))
     (objects (new_game White) ! 9) = Inr [(5, 4), (4, 4)] \<and>
   (0 :: int) \<le> fst (4, 4 :: int) \<and> fst (4 :: int, 4 :: int) < 8 \<and>
   (0 :: int) \<le> snd (4 :: int, 4) \<and> snd (4 :: int, 4 :: int) < 8"
proof -
  have r: "reachable (new_game White)" by (rule reachable.start)
  have l: "9 < length (objects (new_game White))" by code_simp
  have m: "get_valid_moves (objects (new_game White)) (board (new_game White))
     (objects (new_game White) ! 9) = Inr [(5, 4), (4, 4)]" by code_simp
  have i: "(4, 4) \<in> set [(5, 4), (4, 4 :: int)]" by simp
  from reachable_destinations_in_bounds [OF r l m i] r l m show ?thesis by simp
qed

text \<open>
  Claim C4. In a reachable game, for every pawn, a pseudo-legal move that changes column
  and lands on an empty square exists only if the pawn is on row 3 (white) or row 4
  (black) and the square beside it, on its row and on the column of the move, holds a pawn
  of the other colour whose en-passant flag is set.
\<close>

theorem reachable_en_passant_only_if:
  assumes "reachable s" and "a < length (objects s)" and "kind (objects s ! a) = Pawn"
    and "get_valid_moves (objects s) (board s) (objects s ! a) = Inr ms"
    and "(r, c) \<in> set ms" and "c \<noteq> snd (position (objects s ! a))"
    and "board_get (board s) r c = Inr None"
  shows "((fst (position (objects s ! a)) = 3 \<and> color (objects s ! a) = White) \<or>
          (fst (position (objects s ! a)) = 4 \<and> color (objects s ! a) = Black)) \<and>
         (c = snd (position (objects s ! a)) - 1 \<or> c = snd (position (objects s ! a)) + 1) \<and>
         (\<exists>n. board_get (board s) (fst (position (objects s ! a))) c = Inr (Some n) \<and>
              kind (objects s ! n) = Pawn \<and> color (objects s ! n) \<noteq> color (objects s ! a) \<and>
              en_passant_vulnerable (objects s ! n))"
proof -
  let ?os = "objects s" and ?row = "fst (position (objects s ! a))"
  from reachable_ok [OF assms(1)] have pos: "pos_ok ?os (board s)" and objs: "objs_ok ?os"
    by (simp_all add: game_ok_def core_ok_def)
  from objs assms(2) have "piece_ok (?os ! a)" by (simp add: objs_ok_iff)
  from valid_moves_step_ok [OF this assms(4,5)] have c0: "0 \<le> c"
    by (simp add: step_ok_def in_range_def)
  from en_passant_neighbour [OF assms(3,4,5,6,7)] obtain n where
    rows: "(?row = 3 \<and> color (?os ! a) = White) \<or> (?row = 4 \<and> color (?os ! a) = Black)"
    and cols: "c = snd (position (?os ! a)) - 1 \<or> c = snd (position (?os ! a)) + 1"
    and n: "board_get (board s) ?row c = Inr (Some n)"
    and nk: "kind (?os ! n) = Pawn" and nf: "en_passant_vulnerable (?os ! n)"
    by blast
  from rows have r0: "0 \<le> ?row" by auto
  from board_get_cases [OF n] r0 c0 have
    "nat ?row < length (board s)" "nat c < length (board s ! nat ?row)"
    "board s ! nat ?row ! nat c = Some n"
    by auto
  with pos have nl: "n < length ?os" and np: "position (?os ! n) = (int (nat ?row), int (nat c))"
    unfolding pos_ok_iff by blast+
  from objs nl have "piece_ok (?os ! n)" by (simp add: objs_ok_iff)
  with nk nf np r0 have "?row = passed_row (color (?os ! n))"
    by (simp add: piece_ok_def)
  with rows have "color (?os ! n) \<noteq> color (?os ! a)"
    by (auto simp: passed_row_def split: if_splits)
  with rows cols n nk nf show ?thesis by blast
qed

lemma passing_game_facts:
  "map_sum id
     (\<lambda>s. (9 < length (objects s), kind (objects s ! 9), position (objects s ! 9),
           get_valid_moves (objects s) (board s) (objects s ! 9), board_get (board s) 2 3))
     (play (new_game White) passing_game) =
   Inr (True, Pawn, (3, 4), Inr [(2, 4), (2, 3)], Inr None)"
  by code_simp

theorem reachable_en_passant_only_if_witness:
  "case play (new_game White) passing_game of
     Inl e \<Rightarrow> False
   | Inr s \<Rightarrow>
       reachable s \<and> 9 < length (objects s) \<and> kind (objects s ! 9) = Pawn \<and>
       get_valid_moves (objects s) (board s) (objects s ! 9) = Inr [(2, 4), (2, 3)] \<and>
       board_get (board s) 2 3 = Inr None \<and>
       position (objects s ! 9) = (3, 4) \<and> color (objects s ! 9) = White \<and>
       (\<exists>n. board_get (board s) 3 3 = Inr (Some n) \<and> kind (objects s ! n) = Pawn \<and>
            color (objects s ! n) \<noteq> color (objects s ! 9) \<and>
            en_passant_vulnerable (objects s ! n))"
proof (cases "play (new_game White) passing_game")
  case (Inl e)
  with passing_game_facts show ?thesis by simp
next
  case (Inr s)
  with passing_game_facts have
    l: "9 < length (objects s)" and k: "kind (objects s ! 9) = Pawn"
    and p: "position (objects s ! 9) = (3, 4)"
    and m: "get_valid_moves (objects s) (board s) (objects s ! 9) = Inr [(2, 4), (2, 3)]"
    and e: "board_get (board s) 2 3 = Inr None"
    by simp_all
  from reachable_play [OF reachable.start Inr] have r: "reachable s" .
  have i: "(2, 3) \<in> set [(2, 4), (2, 3 :: int)]" by simp
  from p have c: "3 \<noteq> snd (position (objects s ! 9))" by simp
  from reachable_en_passant_only_if [OF r l k m i c e] p r l k m e Inr show ?thesis by auto
qed

section \<open>The legality query writes only its own rows\<close>

lemma rows_of_copy: "rows_of (fst (copy_board h rs)) (snd (copy_board h rs)) = rows_of h rs"
proof (rule nth_equalityI)
  show "length (rows_of (fst (copy_board h rs)) (snd (copy_board h rs))) = length (rows_of h rs)"
    by (simp add: rows_of_def copy_board_def)
next
  fix i assume "i < length (rows_of (fst (copy_board h rs)) (snd (copy_board h rs)))"
  then have i: "i < length rs" by (simp add: rows_of_def copy_board_def)
  then show "rows_of (fst (copy_board h rs)) (snd (copy_board h rs)) ! i = rows_of h rs ! i"
    by (simp add: rows_of_def copy_board_def nth_append)
qed

lemma rows_of_update:
  assumes "i < k" and "n + k \<le> length h"
  shows "rows_of (h[n + i := x]) [n ..< n + k] = (rows_of h [n ..< n + k])[i := x]"
proof (rule nth_equalityI)
  show "length (rows_of (h[n + i := x]) [n ..< n + k]) = length ((rows_of h [n ..< n + k])[i := x])"
    by (simp add: rows_of_def)
next
  fix j assume "j < length (rows_of (h[n + i := x]) [n ..< n + k])"
  then have j: "j < k" by (simp add: rows_of_def)
  with assms show "rows_of (h[n + i := x]) [n ..< n + k] ! j = (rows_of h [n ..< n + k])[i := x] ! j"
    by (simp add: rows_of_def nth_list_update)
qed

lemma py_index_less: "py_index n i = Inr k \<Longrightarrow> k < n"
  by (auto simp: py_index_def split: if_splits)

lemma store_set_refines:
  assumes "n + k \<le> length h"
  shows "case store_set h [n ..< n + k] r c v of
           Inl e \<Rightarrow> board_set (rows_of h [n ..< n + k]) r c v = Inl e
         | Inr h' \<Rightarrow> board_set (rows_of h [n ..< n + k]) r c v = Inr (rows_of h' [n ..< n + k]) \<and>
                     length h' = length h \<and> take n h' = take n h"
proof (cases "py_index k r")
  case (Inl e)
  then show ?thesis by (simp add: store_set_def board_set_def rows_of_def)
next
  case (Inr i)
  then have i: "i < k" by (rule py_index_less)
  then have row: "rows_of h [n ..< n + k] ! i = h ! (n + i)" by (simp add: rows_of_def)
  show ?thesis
  proof (cases "py_index (length (h ! (n + i))) c")
    case (Inl e)
    with Inr i row show ?thesis by (simp add: store_set_def board_set_def rows_of_def)
  next
    case (Inr j)
    from rows_of_update [OF i assms]
    have "rows_of (h[n + i := (h ! (n + i))[j := v]]) [n ..< n + k] =
            (rows_of h [n ..< n + k])[i := (h ! (n + i))[j := v]]" .
    with Inr \<open>py_index k r = Inr i\<close> i row show ?thesis
      by (simp add: store_set_def board_set_def) (simp add: rows_of_def)
  qed
qed


lemma store_set_Inl:
  "n + k \<le> length h \<Longrightarrow> store_set h [n ..< n + k] r c v = Inl e \<Longrightarrow>
   board_set (rows_of h [n ..< n + k]) r c v = Inl e"
  using store_set_refines [of n k h r c v] by simp

lemma store_set_Inr:
  "n + k \<le> length h \<Longrightarrow> store_set h [n ..< n + k] r c v = Inr h' \<Longrightarrow>
   board_set (rows_of h [n ..< n + k]) r c v = Inr (rows_of h' [n ..< n + k]) \<and>
   length h' = length h \<and> take n h' = take n h"
  using store_set_refines [of n k h r c v] by simp

lemma rows_of_prefix:
  assumes "take n h' = take n h" and "list_all (\<lambda>a. a < n) rs"
  shows "rows_of h' rs = rows_of h rs"
  unfolding rows_of_def
proof (rule map_cong [OF refl])
  fix a assume "a \<in> set rs"
  with assms(2) have a: "a < n" by (simp add: list_all_iff)
  then have "h' ! a = take n h' ! a" "h ! a = take n h ! a" by simp_all
  with assms(1) show "h' ! a = h ! a" by simp
qed

lemma move_causes_check_in_store_refines:
  "case move_causes_check_in_store os h rs p mv of
     Inl e \<Rightarrow> move_causes_check os (rows_of h rs) p mv = Inl e
   | Inr r \<Rightarrow> move_causes_check os (rows_of h rs) p mv = Inr (fst r) \<and>
              take (length h) (snd r) = h"
proof -
  let ?n = "length h" and ?k = "length rs"
  let ?h1 = "h @ map (\<lambda>a. h ! a) rs"
  let ?tmp = "[?n ..< ?n + ?k]"
  have cb: "copy_board h rs = (?h1, ?tmp)" by (simp add: copy_board_def)
  have len1: "?n + ?k \<le> length ?h1" by simp
  have r1: "rows_of ?h1 ?tmp = rows_of h rs" using rows_of_copy [of h rs] by (simp add: cb)
  show ?thesis
  proof (cases "store_set ?h1 ?tmp (fst mv) (snd mv) (Some p)")
    case (Inl e)
    from store_set_Inl [OF len1 Inl] r1 Inl show ?thesis
      by (simp add: move_causes_check_in_store_def move_causes_check_def cb)
  next
    case (Inr h2)
    from store_set_Inr [OF len1 Inr] r1
    have b1: "board_set (rows_of h rs) (fst mv) (snd mv) (Some p) = Inr (rows_of h2 ?tmp)"
      and len2: "?n + ?k \<le> length h2" and t2: "take ?n h2 = h"
      by simp_all
    show ?thesis
    proof (cases "store_set h2 ?tmp (fst (position (os ! p))) (snd (position (os ! p))) None")
      case (Inl e)
      from store_set_Inl [OF len2 Inl] b1 Inl Inr show ?thesis
        by (simp add: move_causes_check_in_store_def move_causes_check_def cb)
    next
      case (Inr h3)
      from store_set_Inr [OF len2 Inr] t2
      have b2: "board_set (rows_of h2 ?tmp) (fst (position (os ! p))) (snd (position (os ! p))) None
                  = Inr (rows_of h3 ?tmp)"
        and t3: "take ?n h3 = h"
        by simp_all
      from b1 b2 t3 Inr \<open>store_set ?h1 ?tmp (fst mv) (snd mv) (Some p) = Inr h2\<close>
      show ?thesis
        by (simp add: move_causes_check_in_store_def move_causes_check_def cb
            split: sum.splits)
    qed
  qed
qed

lemma take_prefix_le:
  assumes "take n xs = h" and "length h = n"
  shows "n \<le> length xs"
proof -
  from assms have "length (take n xs) = n" by simp
  then show ?thesis by simp
qed

lemma take_prefix_trans:
  assumes "take m ys = xs" and "length xs = m" and "take n xs = h" and "n \<le> m"
  shows "take n ys = h"
proof -
  from assms(4) have "take n ys = take n (take m ys)" by (simp add: min_def)
  with assms(1,3) show ?thesis by simp
qed

lemma filter_legal_in_store_refines:
  "list_all (\<lambda>a. a < length h) rs \<Longrightarrow>
   (case filter_legal_in_store os h rs p mvs of
      Inl e \<Rightarrow> filter_legal os (rows_of h rs) p mvs = Inl e
    | Inr r \<Rightarrow> filter_legal os (rows_of h rs) p mvs = Inr (fst r) \<and>
               take (length h) (snd r) = h)"
proof (induction mvs arbitrary: h)
  case Nil
  then show ?case by simp
next
  case (Cons mv mvs)
  show ?case
  proof (cases "move_causes_check_in_store os h rs p mv")
    case (Inl e)
    with move_causes_check_in_store_refines [of os h rs p mv] show ?thesis by simp
  next
    case (Inr r)
    with move_causes_check_in_store_refines [of os h rs p mv]
    have m: "move_causes_check os (rows_of h rs) p mv = Inr (fst r)"
      and t: "take (length h) (snd r) = h" by simp_all
    from take_prefix_le [OF t refl] have le: "length h \<le> length (snd r)" .
    with Cons.prems have la: "list_all (\<lambda>a. a < length (snd r)) rs"
      by (auto simp: list_all_iff)
    have "take (length h) (snd r) = take (length h) h" using t by simp
    from rows_of_prefix [OF this Cons.prems] have rw: "rows_of (snd r) rs = rows_of h rs" .
    show ?thesis
    proof (cases "filter_legal_in_store os (snd r) rs p mvs")
      case (Inl e)
      with Cons.IH [OF la] rw have "filter_legal os (rows_of h rs) p mvs = Inl e" by simp
      with m Inl Inr show ?thesis by simp
    next
      case (Inr rest)
      with Cons.IH [OF la] rw
      have f: "filter_legal os (rows_of h rs) p mvs = Inr (fst rest)"
        and t': "take (length (snd r)) (snd rest) = snd r" by simp_all
      from take_prefix_trans [OF t' refl t le] have "take (length h) (snd rest) = h" .
      with f m Inr \<open>move_causes_check_in_store os h rs p mv = Inr r\<close> show ?thesis by simp
    qed
  qed
qed

text \<open>
  Claim C9. Run on the store, the legality query returns what \<^verbatim>\<open>get_legal_moves\<close>
  returns on the current board (the same moves or the same exception), and every row that
  existed before the call is as it was, so the board is the same afterwards: the
  hypothetical boards are new rows. Objects, turn, check flags and history are not written
  by the query at all: it only reads the objects.
\<close>

theorem legality_query_leaves_board:
  assumes "list_all (\<lambda>a. a < length h) rs"
  shows "case get_legal_moves_in_store os h rs p of
           Inl e \<Rightarrow> get_legal_moves os (rows_of h rs) p = Inl e
         | Inr r \<Rightarrow> get_legal_moves os (rows_of h rs) p = Inr (fst r) \<and>
                    take (length h) (snd r) = h \<and> rows_of (snd r) rs = rows_of h rs"
proof (cases "get_valid_moves os (rows_of h rs) (os ! p)")
  case (Inl e)
  then show ?thesis by (simp add: get_legal_moves_in_store_def get_legal_moves_def)
next
  case (Inr pm)
  show ?thesis
  proof (cases "filter_legal_in_store os h rs p pm")
    case (Inl e)
    with filter_legal_in_store_refines [OF assms, of os p pm] Inr show ?thesis
      by (simp add: get_legal_moves_in_store_def get_legal_moves_def)
  next
    case (Inr r)
    with filter_legal_in_store_refines [OF assms, of os p pm]
    have f: "filter_legal os (rows_of h rs) p pm = Inr (fst r)"
      and t: "take (length h) (snd r) = h" by simp_all
    have "take (length h) (snd r) = take (length h) h" using t by simp
    from rows_of_prefix [OF this assms] have "rows_of (snd r) rs = rows_of h rs" .
    with f t Inr \<open>get_valid_moves os (rows_of h rs) (os ! p) = Inr pm\<close> show ?thesis
      by (simp add: get_legal_moves_in_store_def get_legal_moves_def)
  qed
qed


theorem legality_query_leaves_board_witness:
  "list_all (\<lambda>a. a < length (board (new_game White))) [0, 1, 2, 3, 4, 5, 6, 7] \<and>
   map_sum id fst (get_legal_moves_in_store (objects (new_game White)) (board (new_game White))
      [0, 1, 2, 3, 4, 5, 6, 7] 9) = Inr [(5, 4), (4, 4)] \<and>
   map_sum id (\<lambda>r. rows_of (snd r) [0, 1, 2, 3, 4, 5, 6, 7])
     (get_legal_moves_in_store (objects (new_game White)) (board (new_game White))
      [0, 1, 2, 3, 4, 5, 6, 7] 9) =
     Inr (rows_of (board (new_game White)) [0, 1, 2, 3, 4, 5, 6, 7])"
proof -
  have a: "list_all (\<lambda>a. a < length (board (new_game White))) [0, 1, 2, 3, 4, 5, 6, 7]"
    by code_simp
  have b: "map_sum id fst (get_legal_moves_in_store (objects (new_game White))
      (board (new_game White)) [0, 1, 2, 3, 4, 5, 6, 7] 9) = Inr [(5, 4), (4, 4)]"
    by code_simp
  from legality_query_leaves_board [OF a, of "objects (new_game White)" 9] a b
  show ?thesis
    by (cases "get_legal_moves_in_store (objects (new_game White)) (board (new_game White))
      [0, 1, 2, 3, 4, 5, 6, 7] 9") simp_all
qed

section \<open>The starting position\<close>

lemma new_game_white_moves:
  "legal_destinations (objects (new_game White)) (board (new_game White)) White =
     Inr [(Pawn, (6, 0), (5, 0)), (Pawn, (6, 0), (4, 0)), (Pawn, (6, 1), (5, 1)),
          (Pawn, (6, 1), (4, 1)), (Pawn, (6, 2), (5, 2)), (Pawn, (6, 2), (4, 2)),
          (Pawn, (6, 3), (5, 3)), (Pawn, (6, 3), (4, 3)), (Pawn, (6, 4), (5, 4)),
          (Pawn, (6, 4), (4, 4)), (Pawn, (6, 5), (5, 5)), (Pawn, (6, 5), (4, 5)),
          (Pawn, (6, 6), (5, 6)), (Pawn, (6, 6), (4, 6)), (Pawn, (6, 7), (5, 7)),
          (Pawn, (6, 7), (4, 7)), (Knight, (7, 1), (5, 0)), (Knight, (7, 1), (5, 2)),
          (Knight, (7, 6), (5, 5)), (Knight, (7, 6), (5, 7))]"
  by code_simp

lemma new_game_white_moves_any:
  "legal_destinations (objects (new_game pc)) (board (new_game pc)) White =
     Inr [(Pawn, (6, 0), (5, 0)), (Pawn, (6, 0), (4, 0)), (Pawn, (6, 1), (5, 1)),
          (Pawn, (6, 1), (4, 1)), (Pawn, (6, 2), (5, 2)), (Pawn, (6, 2), (4, 2)),
          (Pawn, (6, 3), (5, 3)), (Pawn, (6, 3), (4, 3)), (Pawn, (6, 4), (5, 4)),
          (Pawn, (6, 4), (4, 4)), (Pawn, (6, 5), (5, 5)), (Pawn, (6, 5), (4, 5)),
          (Pawn, (6, 6), (5, 6)), (Pawn, (6, 6), (4, 6)), (Pawn, (6, 7), (5, 7)),
          (Pawn, (6, 7), (4, 7)), (Knight, (7, 1), (5, 0)), (Knight, (7, 1), (5, 2)),
          (Knight, (7, 6), (5, 5)), (Knight, (7, 6), (5, 7))]"
proof -
  have "objects (new_game pc) = objects (new_game White)"
    and "board (new_game pc) = board (new_game White)"
    by (simp_all add: new_game_def)
  then show ?thesis by (simp only: new_game_white_moves)
qed

text \<open>
  Claim C10. In a new game, whichever colour the player chose, it is white's turn and the
  legal moves of the white pieces are 20: 16 moves of pawns and 4 moves of knights, all
  different.
\<close>

theorem new_game_twenty_moves:
  "turn (new_game player_color) = White \<and>
   map_sum id length
     (legal_destinations (objects (new_game player_color)) (board (new_game player_color))
        White) = Inr 20 \<and>
   map_sum id (\<lambda>ds. length (filter (\<lambda>d. fst d = Pawn) ds))
     (legal_destinations (objects (new_game player_color)) (board (new_game player_color))
        White) = Inr 16 \<and>
   map_sum id (\<lambda>ds. length (filter (\<lambda>d. fst d = Knight) ds))
     (legal_destinations (objects (new_game player_color)) (board (new_game player_color))
        White) = Inr 4 \<and>
   map_sum id distinct
     (legal_destinations (objects (new_game player_color)) (board (new_game player_color))
        White) = Inr True"
  unfolding new_game_white_moves_any by (simp add: new_game_fields)

section \<open>Three games from the starting position\<close>

lemma resign_result:
  "game_over (resign s) \<and>
   game_result (resign s) = Some (winner_text (turn s) @ '' wins by resignation!'')"
  by (simp add: resign_def)

text \<open>
  Claim C5 fails in the code. Fool's mate is played (four completed moves); the game is
  over with the result of the checkmate. \<^verbatim>\<open>resign\<close> on this game writes the result again.
\<close>

theorem resign_after_checkmate:
  "map_sum id
     (\<lambda>s. (length (position_history s), game_over s, game_result s,
           game_over (resign s), game_result (resign s)))
     (play (new_game White) fools_mate) =
   Inr (4, True, Some ''Black wins by checkmate!'', True, Some ''Black wins by resignation!'')"
  by code_simp

lemma promote_pawn_keeps_turn: "promote_pawn s k = Inr s' \<Longrightarrow> turn s' = turn s"
  by (auto simp: promote_pawn_def update_check_status_def update_game_over_def
      update_position_history_def split: sum.splits option.splits bool.splits if_splits)

text \<open>
  Claim C2 fails in the code. After eight completed moves white's pawn takes on row 0;
  the promotion is pending and it is still white's turn. \<^verbatim>\<open>promote_pawn\<close> puts a new queen
  (object 32) on the square and appends one snapshot, and it is white's turn again.
\<close>

theorem promotion_keeps_turn:
  "map_sum id
     (\<lambda>s. (length (position_history s), turn s, promotion_pawn s,
           map_sum id
             (\<lambda>s'. (turn s', promotion_pawn s', kind (objects s' ! 32),
                    board_get (board s') 0 1, length (position_history s')))
             (promote_pawn s Queen)))
     (play (new_game White) promotion_game) =
   Inr (8, White, Some 1, Inr (White, None, Queen, Inr (Some 32), 9))"
  by code_simp

text \<open>
  Claim C1 fails in the code. After thirteen completed moves it is black's turn and the
  legal moves of the black pawn on (4, 4) (object 8) include the en passant capture on
  (5, 5). The move is applied; the white pawn on (4, 5) leaves the board, and the black
  king on (4, 6) is attacked by the white queen (object 23) on (4, 0).
\<close>

theorem en_passant_exposes_king:
  "map_sum id
     (\<lambda>s. (length (position_history s), turn s, get_legal_moves (objects s) (board s) 8,
           map_sum id
             (\<lambda>s'. (last_move s', turn s', length (position_history s'),
                    find_king (objects s') Black (board s'), is_in_check s' Black,
                    board_get (board s') 4 0, board_get (board s') 4 5))
             (drag s ((4, 4), (5, 5)))))
     (play (new_game White) (butlast en_passant_game)) =
   Inr (13, Black, Inr [(5, 4), (5, 5)],
        Inr (Some (4, 4, 5, 5), White, 14, Inr (Some (4, 6)), Inr True, Inr (Some 23),
             Inr None))"
  by code_simp

end
